theory Spec2Isabelle
  imports Complex_Main
begin

section \<open>The HEALPix handle classes of \<^verbatim>\<open>healpix/high_level.py\<close>\<close>

text \<open>
  The module defines two classes, \<^verbatim>\<open>HEALPix\<close> and its subclass
  \<^verbatim>\<open>CelestialHEALPix\<close>. Their methods bind a resolution \<^verbatim>\<open>nside\<close> and an
  ordering \<^verbatim>\<open>order\<close> (and, for the subclass, a coordinate frame) and forward to the
  functions imported from \<^verbatim>\<open>.core\<close> and to astropy. Neither \<^verbatim>\<open>.core\<close> nor
  astropy is part of the sources, so their functions are parameters of the model
  (records of functions); what the classes themselves do is translated statement by
  statement.
\<close>

subsection \<open>Values that cross the interface\<close>

text \<open>
  An astropy \<^verbatim>\<open>Quantity\<close> holds either a single number or an array of numbers;
  its attribute \<^verbatim>\<open>isscalar\<close> tells which. The numbers are floats, which the
  classes never inspect: their type is the parameter \<open>'a\<close>.
\<close>

datatype 'a quantity = Scalar 'a | Array "'a list"

fun isscalar :: "'a quantity \<Rightarrow> bool" where
  "isscalar (Scalar x) = True"
| "isscalar (Array xs) = False"

text \<open>
  The object bound to the parameter \<^verbatim>\<open>approximate\<close>. Python does not check
  its type: a caller passes a bool, and \<^verbatim>\<open>cone_search_skycoord\<close> passes the
  integer \<^verbatim>\<open>self.nside\<close>. \<open>truthy\<close> is Python's truth value of the object.
\<close>

datatype pyarg = PyBool bool | PyInt int

fun truthy :: "pyarg \<Rightarrow> bool" where
  "truthy (PyBool b) = b"
| "truthy (PyInt n) = (n \<noteq> 0)"

text \<open>
  What \<^verbatim>\<open>lonlat_to_healpix\<close> returns: the indices alone, or the indices with
  the offsets \<^verbatim>\<open>dx\<close>, \<^verbatim>\<open>dy\<close> when \<^verbatim>\<open>return_offsets\<close> is true.
\<close>

datatype 'a located = Indices "int list" | Indices_offsets "int list" "'a list" "'a list"

subsection \<open>Errors\<close>

text \<open>
  Modelled from the spec: the error kinds of the functions of \<^verbatim>\<open>.core\<close>, which
  is not among the sources (section 7 of the specification names them).
\<close>

datatype core_error = InvalidResolution | InvalidIndex | InvalidCoordinate | InvalidRadius

text \<open>
  Every \<^verbatim>\<open>raise\<close> of \<^verbatim>\<open>high_level.py\<close> is a \<^verbatim>\<open>ValueError\<close>; the
  constructors tell the three raise sites apart:
  \<^item> \<open>NsideNotSet\<close>: \<^verbatim>\<open>ValueError('nside has not been set')\<close>,
  \<^item> \<open>ValueLengthMismatch\<close>: \<^verbatim>\<open>ValueError('values should be an array of length ...')\<close>,
  \<^item> \<open>InvalidArgumentShape\<close>: \<^verbatim>\<open>ValueError('The longitude, latitude and radius should be scalar Quantity objects')\<close>.

  \<open>Propagated e\<close> is an exception raised inside a function of \<^verbatim>\<open>.core\<close> that
  passes through the method unhandled (the module has no \<^verbatim>\<open>try\<close>).
\<close>

datatype error = NsideNotSet | ValueLengthMismatch | InvalidArgumentShape | Propagated core_error

definition propagate :: "core_error + 'r \<Rightarrow> error + 'r" where
  "propagate r = (case r of Inl e \<Rightarrow> Inl (Propagated e) | Inr v \<Rightarrow> Inr v)"

subsection \<open>The imported functions\<close>

text \<open>
  The functions imported from \<^verbatim>\<open>.core\<close>, with the arguments in the order in
  which the methods pass them. The interpolation receives the caller's array
  \<^verbatim>\<open>values\<close> by reference: beside its result it yields what the array holds when it
  returns.
\<close>

record 'a core =
  core_nside_to_pixel_area :: "int \<Rightarrow> core_error + 'a"
  core_nside_to_pixel_resolution :: "int \<Rightarrow> core_error + 'a"
  core_nside_to_npix :: "int \<Rightarrow> core_error + int"
  core_healpix_to_lonlat ::
    "int list \<Rightarrow> int \<Rightarrow> 'a list option \<Rightarrow> 'a list option \<Rightarrow> string
      \<Rightarrow> core_error + ('a quantity \<times> 'a quantity)"
  core_lonlat_to_healpix ::
    "'a quantity \<Rightarrow> 'a quantity \<Rightarrow> int \<Rightarrow> bool \<Rightarrow> string \<Rightarrow> core_error + 'a located"
  core_interpolate_bilinear_lonlat ::
    "'a quantity \<Rightarrow> 'a quantity \<Rightarrow> 'a list \<Rightarrow> string \<Rightarrow> (core_error + 'a list) \<times> 'a list"
  core_ring_to_nested :: "int list \<Rightarrow> int \<Rightarrow> core_error + int list"
  core_nested_to_ring :: "int list \<Rightarrow> int \<Rightarrow> core_error + int list"
  core_healpix_cone_search ::
    "'a quantity \<Rightarrow> 'a quantity \<Rightarrow> 'a quantity \<Rightarrow> int \<Rightarrow> string \<Rightarrow> pyarg
      \<Rightarrow> core_error + int list"

text \<open>
  Modelled from the spec: \<^verbatim>\<open>core.nside_to_npix\<close>, which is not among the sources.
  Section 4.1: "\<^verbatim>\<open>pixel_count(nside) -> integer\<close>: returns \<^verbatim>\<open>12 * nside^2\<close>. Fails
  with \<^verbatim>\<open>InvalidResolution\<close> if \<^verbatim>\<open>nside <= 0\<close>." This is the function the
  specification puts in the field \<open>core_nside_to_npix\<close>.
\<close>

definition nside_to_npix :: "int \<Rightarrow> core_error + int" where
  "nside_to_npix n = (if n \<le> 0 then Inl InvalidResolution else Inr (12 * n\<^sup>2))"

text \<open>
  What the subclass uses of astropy: the default frame \<^verbatim>\<open>ICRS()\<close>; the longitude and
  latitude of a sky coordinate in a frame
  (\<^verbatim>\<open>skycoord.transform_to(frame).represent_as(UnitSphericalRepresentation)\<close>, then
  \<^verbatim>\<open>.lon\<close> and \<^verbatim>\<open>.lat\<close>); and the sky coordinate of a longitude and latitude in
  a frame (\<^verbatim>\<open>SkyCoord(frame.realize_frame(UnitSphericalRepresentation(lon, lat, copy=False)))\<close>).
\<close>

record ('a, 's, 'f) astropy =
  ICRS :: 'f
  skycoord_lonlat :: "'s \<Rightarrow> 'f \<Rightarrow> 'a quantity \<times> 'a quantity"
  lonlat_skycoord :: "'f \<Rightarrow> 'a quantity \<Rightarrow> 'a quantity \<Rightarrow> 's"

subsection \<open>class HEALPix\<close>

text \<open>The attributes of an instance, as \<^verbatim>\<open>__init__\<close> sets them.\<close>

record healpix =
  nside :: int
  order :: string

text \<open>
  \<^verbatim>\<open>def __init__(self, nside=None, order='ring')\<close>. An argument the caller leaves
  out is \<open>None\<close> here; for \<^verbatim>\<open>nside\<close> that is Python's own default
  \<^verbatim>\<open>None\<close>, for \<^verbatim>\<open>order\<close> the default is the string \<^verbatim>\<open>'ring'\<close>. The only
  check is \<^verbatim>\<open>nside is None\<close>.
\<close>

definition HEALPix_init :: "int option \<Rightarrow> string option \<Rightarrow> error + healpix" where
  "HEALPix_init nside_arg order_arg =
     (case nside_arg of
        None \<Rightarrow> Inl NsideNotSet
      | Some n \<Rightarrow>
          Inr \<lparr>nside = n, order = (case order_arg of None \<Rightarrow> ''ring'' | Some s \<Rightarrow> s)\<rparr>)"

text \<open>
  The methods take the instance in place of \<^verbatim>\<open>self\<close>. They are defined on every
  extension of the record, as the subclass inherits them.
\<close>

definition pixel_area :: "'a core \<Rightarrow> 'z healpix_scheme \<Rightarrow> error + 'a" where
  "pixel_area c h = propagate (core_nside_to_pixel_area c (nside h))"

definition pixel_resolution :: "'a core \<Rightarrow> 'z healpix_scheme \<Rightarrow> error + 'a" where
  "pixel_resolution c h = propagate (core_nside_to_pixel_resolution c (nside h))"

definition npix :: "'a core \<Rightarrow> 'z healpix_scheme \<Rightarrow> error + int" where
  "npix c h = propagate (core_nside_to_npix c (nside h))"

definition healpix_to_lonlat ::
  "'a core \<Rightarrow> 'z healpix_scheme \<Rightarrow> int list \<Rightarrow> 'a list option \<Rightarrow> 'a list option
    \<Rightarrow> error + ('a quantity \<times> 'a quantity)" where
  "healpix_to_lonlat c h healpix_index dx dy =
     propagate (core_healpix_to_lonlat c healpix_index (nside h) dx dy (order h))"

definition lonlat_to_healpix ::
  "'a core \<Rightarrow> 'z healpix_scheme \<Rightarrow> 'a quantity \<Rightarrow> 'a quantity \<Rightarrow> bool \<Rightarrow> error + 'a located" where
  "lonlat_to_healpix c h lon lat return_offsets =
     propagate (core_lonlat_to_healpix c lon lat (nside h) return_offsets (order h))"

definition nested_to_ring :: "'a core \<Rightarrow> 'z healpix_scheme \<Rightarrow> int list \<Rightarrow> error + int list" where
  "nested_to_ring c h nested_index = propagate (core_nested_to_ring c nested_index (nside h))"

definition ring_to_nested :: "'a core \<Rightarrow> 'z healpix_scheme \<Rightarrow> int list \<Rightarrow> error + int list" where
  "ring_to_nested c h ring_index = propagate (core_ring_to_nested c ring_index (nside h))"

text \<open>
  \<^verbatim>\<open>if len(values) != self.npix: raise ValueError(...)\<close>. Reading the property
  \<^verbatim>\<open>self.npix\<close> calls \<^verbatim>\<open>nside_to_npix\<close>, whose exception would come first. The
  call to the core function passes no \<^verbatim>\<open>nside\<close>. The second component of the
  result is the array \<^verbatim>\<open>values\<close> after the call: the method itself only takes its
  length.
\<close>

definition interpolate_bilinear_lonlat ::
  "'a core \<Rightarrow> 'z healpix_scheme \<Rightarrow> 'a quantity \<Rightarrow> 'a quantity \<Rightarrow> 'a list
    \<Rightarrow> (error + 'a list) \<times> 'a list" where
  "interpolate_bilinear_lonlat c h lon lat vals =
     (case npix c h of
        Inl e \<Rightarrow> (Inl e, vals)
      | Inr n \<Rightarrow>
          if int (length vals) \<noteq> n then (Inl ValueLengthMismatch, vals)
          else (case core_interpolate_bilinear_lonlat c lon lat vals (order h) of
                  (r, vals') \<Rightarrow> (propagate r, vals')))"

text \<open>
  \<^verbatim>\<open>if not lon.isscalar or not lat.isscalar or not radius.isscalar: raise ValueError(...)\<close>,
  then the call of the core function with \<^verbatim>\<open>approximate\<close> as it was received.
\<close>

definition cone_search_lonlat ::
  "'a core \<Rightarrow> 'z healpix_scheme \<Rightarrow> 'a quantity \<Rightarrow> 'a quantity \<Rightarrow> 'a quantity \<Rightarrow> pyarg
    \<Rightarrow> error + int list" where
  "cone_search_lonlat c h lon lat radius approximate =
     (if \<not> isscalar lon \<or> \<not> isscalar lat \<or> \<not> isscalar radius then Inl InvalidArgumentShape
      else propagate
             (core_healpix_cone_search c lon lat radius (nside h) (order h) approximate))"

subsection \<open>class CelestialHEALPix(HEALPix)\<close>

record 'f celestial_healpix = healpix +
  frame :: 'f

text \<open>
  \<^verbatim>\<open>def __init__(self, nside=None, order='ring', frame=None)\<close> calls the
  initialiser of \<^verbatim>\<open>HEALPix\<close> with its own \<^verbatim>\<open>order\<close> (the default already
  filled in) and then sets \<^verbatim>\<open>self.frame = frame if frame is not None else ICRS()\<close>.
\<close>

definition CelestialHEALPix_init ::
  "('a, 's, 'f) astropy \<Rightarrow> int option \<Rightarrow> string option \<Rightarrow> 'f option
    \<Rightarrow> error + 'f celestial_healpix" where
  "CelestialHEALPix_init a nside_arg order_arg frame_arg =
     (case HEALPix_init nside_arg
             (Some (case order_arg of None \<Rightarrow> ''ring'' | Some s \<Rightarrow> s)) of
        Inl e \<Rightarrow> Inl e
      | Inr h \<Rightarrow>
          Inr \<lparr>nside = nside h, order = order h,
               frame = (case frame_arg of None \<Rightarrow> ICRS a | Some f \<Rightarrow> f)\<rparr>)"

definition healpix_to_skycoord ::
  "'a core \<Rightarrow> ('a, 's, 'f) astropy \<Rightarrow> ('f, 'z) celestial_healpix_scheme \<Rightarrow> int list
    \<Rightarrow> 'a list option \<Rightarrow> 'a list option \<Rightarrow> error + 's" where
  "healpix_to_skycoord c a h healpix_index dx dy =
     (case healpix_to_lonlat c h healpix_index dx dy of
        Inl e \<Rightarrow> Inl e
      | Inr (lon, lat) \<Rightarrow> Inr (lonlat_skycoord a (frame h) lon lat))"

definition skycoord_to_healpix ::
  "'a core \<Rightarrow> ('a, 's, 'f) astropy \<Rightarrow> ('f, 'z) celestial_healpix_scheme \<Rightarrow> 's \<Rightarrow> bool
    \<Rightarrow> error + 'a located" where
  "skycoord_to_healpix c a h skycoord return_offsets =
     (case skycoord_lonlat a skycoord (frame h) of
        (lon, lat) \<Rightarrow> lonlat_to_healpix c h lon lat return_offsets)"

definition interpolate_bilinear_skycoord ::
  "'a core \<Rightarrow> ('a, 's, 'f) astropy \<Rightarrow> ('f, 'z) celestial_healpix_scheme \<Rightarrow> 's \<Rightarrow> 'a list
    \<Rightarrow> (error + 'a list) \<times> 'a list" where
  "interpolate_bilinear_skycoord c a h skycoord vals =
     (case skycoord_lonlat a skycoord (frame h) of
        (lon, lat) \<Rightarrow> interpolate_bilinear_lonlat c h lon lat vals)"

text \<open>
  The last line of the method is
  \<^verbatim>\<open>return self.cone_search_lonlat(lon, lat, radius, self.nside)\<close>: the fourth
  positional parameter of \<^verbatim>\<open>cone_search_lonlat\<close> is \<^verbatim>\<open>approximate\<close>, and the
  method's own parameter \<^verbatim>\<open>approximate\<close> is not used.
\<close>

definition cone_search_skycoord ::
  "'a core \<Rightarrow> ('a, 's, 'f) astropy \<Rightarrow> ('f, 'z) celestial_healpix_scheme \<Rightarrow> 's \<Rightarrow> 'a quantity
    \<Rightarrow> pyarg \<Rightarrow> error + int list" where
  "cone_search_skycoord c a h skycoord radius approximate =
     (case skycoord_lonlat a skycoord (frame h) of
        (lon, lat) \<Rightarrow> cone_search_lonlat c h lon lat radius (PyInt (nside h)))"

subsection \<open>The cone search of the core, from the specification\<close>





section \<open>The two orderings, from the specification\<close>

text \<open>
  Modelled from the spec: \<^verbatim>\<open>core.nested_to_ring\<close> and \<^verbatim>\<open>core.ring_to_nested\<close>,
  which are not among the sources. Section 4.3 describes them in words: both orderings
  number the same \<^verbatim>\<open>12 * nside^2\<close> pixels; a pixel has a canonical representation,
  its tile (one of 12) and two local coordinates \<open>x\<close>, \<open>y\<close> in the tile; the nested
  index is the tile number times \<^verbatim>\<open>nside^2\<close> plus the two coordinates with their bits
  interleaved; the ring index counts the pixels ring by ring from the north pole, west
  to east within a ring, with ring lengths that grow across the polar cap, stay at
  \<^verbatim>\<open>4 * nside\<close> in the equatorial belt and shrink again; and a conversion computes the
  canonical representation from one index and the other index from it.

  The specification does not write out on which ring, and at which place of the ring,
  the pixel \<open>(x, y)\<close> of a tile lies. The positions used below (\<open>ring_of_xy\<close>,
  \<open>pos_of_xy\<close> and their inverse \<open>xy_of_ringpos\<close>, with the tile rows \<open>jrll\<close> and
  tile longitudes \<open>jpll\<close>) are those of the HEALPix scheme that the specification
  names; they are an addition to its text, and they are not taken from the sources.
\<close>

subsection \<open>Nested ordering: two interleaved bit fields\<close>

text \<open>
  \<open>spread_bits\<close> moves bit \<open>i\<close> of its argument to bit \<open>2 * i\<close>;
  \<open>compress_bits\<close> collects the bits at the even places. The coordinate \<open>x\<close> takes
  the even bits of the index within the tile, \<open>y\<close> the odd ones.
\<close>

function spread_bits :: "int \<Rightarrow> int" where
  "spread_bits v = (if v \<le> 0 then 0 else v mod 2 + 4 * spread_bits (v div 2))"
  by pat_completeness auto
termination
  by (relation "measure nat") auto

function compress_bits :: "int \<Rightarrow> int" where
  "compress_bits v = (if v \<le> 0 then 0 else v mod 2 + 2 * compress_bits (v div 4))"
  by pat_completeness auto
termination
  by (relation "measure nat") auto

declare spread_bits.simps [simp del] compress_bits.simps [simp del]

text \<open>A canonical representation \<open>(tile, x, y)\<close> as it is for the resolution \<open>N\<close>.\<close>

definition valid_xy :: "int \<Rightarrow> int \<times> int \<times> int \<Rightarrow> bool" where
  "valid_xy N v =
     (case v of (f, x, y) \<Rightarrow> 0 \<le> f \<and> f < 12 \<and> 0 \<le> x \<and> x < N \<and> 0 \<le> y \<and> y < N)"

definition xy_to_nested :: "int \<Rightarrow> int \<times> int \<times> int \<Rightarrow> int" where
  "xy_to_nested N v = (case v of (f, x, y) \<Rightarrow> f * N\<^sup>2 + spread_bits x + 2 * spread_bits y)"

definition nested_to_xy :: "int \<Rightarrow> int \<Rightarrow> int \<times> int \<times> int" where
  "nested_to_xy N p =
     (p div N\<^sup>2, compress_bits (p mod N\<^sup>2), compress_bits ((p mod N\<^sup>2) div 2))"

subsection \<open>Ring ordering: the sweep over the rings\<close>

text \<open>
  The rings are numbered \<open>1\<close> to \<open>4 * N - 1\<close> from the north pole. Ring \<open>r\<close> holds
  \<open>quarter N r\<close> pixels for each of the four tiles around the axis: \<open>r\<close> of them in the
  north polar cap, \<open>N\<close> in the equatorial belt, \<open>4 * N - r\<close> in the south polar cap.
  \<open>ring_start N r\<close> is the number of pixels on the rings before ring \<open>r\<close>, and
  \<open>locate\<close> sweeps the rings from ring \<open>r\<close> on to find the ring of the pixel with
  \<open>p\<close> pixels before it and its place on that ring, counted from 1.
\<close>

definition quarter :: "int \<Rightarrow> int \<Rightarrow> int" where
  "quarter N r = min r (min N (4 * N - r))"

definition ring_length :: "int \<Rightarrow> int \<Rightarrow> int" where
  "ring_length N r = 4 * quarter N r"

fun ring_start :: "int \<Rightarrow> nat \<Rightarrow> int" where
  "ring_start N 0 = 0"
| "ring_start N (Suc r) = ring_start N r + ring_length N (int r)"

function locate :: "int \<Rightarrow> int \<Rightarrow> int \<Rightarrow> int \<times> int" where
  "locate N r p =
     (if r < 4 * N - 1 \<and> ring_length N r \<le> p
      then locate N (r + 1) (p - ring_length N r)
      else (r, p + 1))"
  by pat_completeness auto
termination
  by (relation "measure (\<lambda>(N, r, p). nat (4 * N - r))") auto

declare locate.simps [simp del]

subsection \<open>Where the pixels of a tile lie on the rings\<close>

text \<open>
  The twelve tiles stand in three rows of four: tiles 0 to 3 touch the north pole,
  tiles 4 to 7 straddle the equator, tiles 8 to 11 touch the south pole. The southern
  corner of tile \<open>f\<close> is on ring \<open>jrll f * N\<close>, and \<open>jpll f\<close> is the longitude of the
  tile's center in units of a quarter of a right angle. The rings of the equatorial belt
  are shifted against each other by half a pixel (\<open>kshift\<close>). The pixel \<open>(x, y)\<close> of
  tile \<open>f\<close> is on ring \<open>ring_of_xy N f x y\<close> at place \<open>pos_of_xy N f x y\<close>; tile 4
  wraps around the meridian of longitude 0.
\<close>

definition jrll :: "int \<Rightarrow> int" where
  "jrll f = f div 4 + 2"

definition jpll :: "int \<Rightarrow> int" where
  "jpll f = (if f div 4 = 1 then 2 * (f mod 4) else 2 * (f mod 4) + 1)"

definition kshift :: "int \<Rightarrow> int \<Rightarrow> int" where
  "kshift N r = (if N \<le> r \<and> r \<le> 3 * N then (r - N) mod 2 else 0)"

definition ring_of_xy :: "int \<Rightarrow> int \<Rightarrow> int \<Rightarrow> int \<Rightarrow> int" where
  "ring_of_xy N f x y = jrll f * N - x - y - 1"

definition pos_of_xy :: "int \<Rightarrow> int \<Rightarrow> int \<Rightarrow> int \<Rightarrow> int" where
  "pos_of_xy N f x y =
     (let r = ring_of_xy N f x y;
          jp = (jpll f * quarter N r + x - y + 1 + kshift N r) div 2
      in if jp < 1 then jp + 4 * N else jp)"

text \<open>
  The way back: the tile of the pixel at place \<open>j\<close> of ring \<open>r\<close> (in a polar cap the
  quadrant of the ring, in the belt by the two diagonals through the pixel), then its
  coordinates in the tile.
\<close>

definition face_of_ringpos :: "int \<Rightarrow> int \<Rightarrow> int \<Rightarrow> int" where
  "face_of_ringpos N r j =
     (if r < N then (j - 1) div quarter N r
      else if r \<le> 3 * N then
        (let ifm = (j - (r - N + 1) div 2 + N - 1) div N;
             ifp = (j - (3 * N + 1 - r) div 2 + N - 1) div N
         in if ifp = ifm then ifp mod 4 + 4
            else if ifp < ifm then ifp else ifm + 8)
      else 8 + (j - 1) div quarter N r)"

definition xy_of_ringpos :: "int \<Rightarrow> int \<Rightarrow> int \<Rightarrow> int \<times> int \<times> int" where
  "xy_of_ringpos N r j =
     (let f = face_of_ringpos N r j;
          irt = r - jrll f * N + 1;
          ipt0 = 2 * j - jpll f * quarter N r - kshift N r - 1;
          ipt = (if 2 * N \<le> ipt0 then ipt0 - 8 * N else ipt0)
      in (f, (ipt - irt) div 2, (- ipt - irt) div 2))"

definition xy_to_ring :: "int \<Rightarrow> int \<times> int \<times> int \<Rightarrow> int" where
  "xy_to_ring N v =
     (case v of (f, x, y) \<Rightarrow> ring_start N (nat (ring_of_xy N f x y)) + pos_of_xy N f x y - 1)"

definition ring_to_xy :: "int \<Rightarrow> int \<Rightarrow> int \<times> int \<times> int" where
  "ring_to_xy N p = (case locate N 1 p of (r, j) \<Rightarrow> xy_of_ringpos N r j)"

subsection \<open>The conversions\<close>

text \<open>
  A conversion computes the canonical representation from one index and the other index
  from it. It fails with \<open>InvalidResolution\<close> for a non-positive \<^verbatim>\<open>nside\<close> and with
  \<open>InvalidIndex\<close> for an index outside \<^verbatim>\<open>[0, 12 * nside^2)\<close> (section 7). The
  functions of the core take an array of indices; section 9 makes the batch a loop of
  the conversion of one index over the elements, which stops at the first failure here.
\<close>

definition nested_to_ring_index :: "int \<Rightarrow> int \<Rightarrow> core_error + int" where
  "nested_to_ring_index N i =
     (if N \<le> 0 then Inl InvalidResolution
      else if i < 0 \<or> 12 * N\<^sup>2 \<le> i then Inl InvalidIndex
      else Inr (xy_to_ring N (nested_to_xy N i)))"

definition ring_to_nested_index :: "int \<Rightarrow> int \<Rightarrow> core_error + int" where
  "ring_to_nested_index N i =
     (if N \<le> 0 then Inl InvalidResolution
      else if i < 0 \<or> 12 * N\<^sup>2 \<le> i then Inl InvalidIndex
      else Inr (xy_to_nested N (ring_to_xy N i)))"

fun batch :: "(int \<Rightarrow> core_error + int) \<Rightarrow> int list \<Rightarrow> core_error + int list" where
  "batch f [] = Inr []"
| "batch f (i # rest) =
     (case f i of
        Inl e \<Rightarrow> Inl e
      | Inr j \<Rightarrow> (case batch f rest of Inl e \<Rightarrow> Inl e | Inr js \<Rightarrow> Inr (j # js)))"

definition nested_to_ring_indices :: "int list \<Rightarrow> int \<Rightarrow> core_error + int list" where
  "nested_to_ring_indices nested_index N = batch (nested_to_ring_index N) nested_index"

definition ring_to_nested_indices :: "int list \<Rightarrow> int \<Rightarrow> core_error + int list" where
  "ring_to_nested_indices ring_index N = batch (ring_to_nested_index N) ring_index"


section \<open>Properties of the handle classes\<close>

subsection \<open>Auxiliary facts\<close>

lemma propagate_simps:
  "propagate (Inl e) = Inl (Propagated e)"
  "propagate (Inr v) = Inr v"
  by (simp_all add: propagate_def)

lemma propagate_not_raised_here:
  "propagate r \<noteq> Inl NsideNotSet"
  "propagate r \<noteq> Inl ValueLengthMismatch"
  "propagate r \<noteq> Inl InvalidArgumentShape"
  by (cases r; simp add: propagate_def)+



subsection \<open>The flag of \<^verbatim>\<open>cone_search_skycoord\<close>\<close>

text \<open>
  Claim C3. \<^verbatim>\<open>CelestialHEALPix.cone_search_skycoord\<close> ignores its argument
  \<^verbatim>\<open>approximate\<close>: for the same sky coordinate and radius, the call with
  \<^verbatim>\<open>approximate=True\<close> and the call with \<^verbatim>\<open>approximate=False\<close> return the same
  result. Whatever the caller passes, the method calls \<^verbatim>\<open>cone_search_lonlat\<close> with
  \<^verbatim>\<open>self.nside\<close> in the position of \<^verbatim>\<open>approximate\<close>, so the flag that reaches the
  search is the integer \<^verbatim>\<open>nside\<close>, whose truth value is \<^verbatim>\<open>nside != 0\<close>.
\<close>

theorem cone_search_skycoord_ignores_approximate:
  "cone_search_skycoord c a h skycoord radius (PyBool True)
     = cone_search_skycoord c a h skycoord radius (PyBool False)
   \<and> cone_search_skycoord c a h skycoord radius approximate
     = cone_search_lonlat c h (fst (skycoord_lonlat a skycoord (frame h)))
         (snd (skycoord_lonlat a skycoord (frame h))) radius (PyInt (nside h))
   \<and> truthy (PyInt (nside h)) = (nside h \<noteq> 0)"
  by (simp add: cone_search_skycoord_def split: prod.split)

text \<open>
  At \<^verbatim>\<open>nside = 4\<close> with a scalar radius, for every core and every astropy: both
  flags give the same result, which is that of the core's search called with the flag
  \<^verbatim>\<open>4\<close>, a true value.
\<close>

theorem cone_search_skycoord_ignores_approximate_witness:
  "\<forall>(c :: real core) (a :: (real, unit, unit) astropy).
     cone_search_skycoord c a \<lparr>nside = 4, order = ''ring'', frame = ()\<rparr> () (Scalar 1) (PyBool True)
       = cone_search_skycoord c a \<lparr>nside = 4, order = ''ring'', frame = ()\<rparr> () (Scalar 1) (PyBool False)
   \<and> cone_search_skycoord c a \<lparr>nside = 4, order = ''ring'', frame = ()\<rparr> () (Scalar 1) (PyBool False)
       = cone_search_lonlat c \<lparr>nside = 4, order = ''ring'', frame = ()\<rparr>
           (fst (skycoord_lonlat a () ())) (snd (skycoord_lonlat a () ())) (Scalar 1) (PyInt 4)
   \<and> truthy (PyInt 4)"
proof (intro allI)
  fix c :: "real core" and a :: "(real, unit, unit) astropy"
  show "cone_search_skycoord c a \<lparr>nside = 4, order = ''ring'', frame = ()\<rparr> () (Scalar 1) (PyBool True)
       = cone_search_skycoord c a \<lparr>nside = 4, order = ''ring'', frame = ()\<rparr> () (Scalar 1) (PyBool False)
   \<and> cone_search_skycoord c a \<lparr>nside = 4, order = ''ring'', frame = ()\<rparr> () (Scalar 1) (PyBool False)
       = cone_search_lonlat c \<lparr>nside = 4, order = ''ring'', frame = ()\<rparr>
           (fst (skycoord_lonlat a () ())) (snd (skycoord_lonlat a () ())) (Scalar 1) (PyInt 4)
   \<and> truthy (PyInt 4)"
    using cone_search_skycoord_ignores_approximate
      [of c a "\<lparr>nside = 4, order = ''ring'', frame = ()\<rparr>" "()" "Scalar 1" "PyBool False"]
    by simp
qed

subsection \<open>Approximate and exact cone search\<close>



subsection \<open>The length check of the interpolation\<close>

text \<open>
  Claim C5. Let \<open>n\<close> be the pixel count of the handle's \<^verbatim>\<open>nside\<close>, that is what
  \<^verbatim>\<open>nside_to_npix\<close> returns for it (\<^verbatim>\<open>12 * nside^2\<close> when the function is the
  pixel count of the specification). Then
  \<^verbatim>\<open>interpolate_bilinear_lonlat\<close> fails with \<open>ValueLengthMismatch\<close> if and only if
  the length of \<^verbatim>\<open>values\<close> differs from \<open>n\<close>; when the length is \<open>n\<close>, the
  length check raises nothing and the result is that of the core's interpolation,
  called with the longitude, the latitude, the values and the handle's order.
\<close>

theorem interpolate_length_check:
  assumes "core_nside_to_npix c (nside h) = Inr n"
  shows "(fst (interpolate_bilinear_lonlat c h lon lat vals) = Inl ValueLengthMismatch
            \<longleftrightarrow> int (length vals) \<noteq> n)
       \<and> (int (length vals) = n \<longrightarrow>
            fst (interpolate_bilinear_lonlat c h lon lat vals)
              = propagate (fst (core_interpolate_bilinear_lonlat c lon lat vals (order h))))
       \<and> (core_nside_to_npix c = nside_to_npix \<longrightarrow> n = 12 * (nside h)\<^sup>2)"
proof -
  have "n = 12 * (nside h)\<^sup>2" if "core_nside_to_npix c = nside_to_npix"
    using assms that by (simp add: nside_to_npix_def split: if_splits)
  then show ?thesis
    using assms
    by (simp add: interpolate_bilinear_lonlat_def npix_def propagate_simps
        propagate_not_raised_here split: prod.split)
qed

text \<open>
  At \<^verbatim>\<open>nside = 1\<close>, with the pixel count \<^verbatim>\<open>12 * 1^2 = 12\<close> of the specification
  in the core: three values are refused, twelve values reach the core's interpolation.
\<close>

theorem interpolate_length_check_witness:
  "\<forall>(c :: real core) lon lat.
     core_nside_to_npix (c\<lparr>core_nside_to_npix := nside_to_npix\<rparr>)
        (nside \<lparr>nside = 1, order = ''nested''\<rparr>) = Inr 12
   \<and> fst (interpolate_bilinear_lonlat (c\<lparr>core_nside_to_npix := nside_to_npix\<rparr>)
        \<lparr>nside = 1, order = ''nested''\<rparr> lon lat [1, 2, 3])
       = Inl ValueLengthMismatch
   \<and> fst (interpolate_bilinear_lonlat (c\<lparr>core_nside_to_npix := nside_to_npix\<rparr>)
        \<lparr>nside = 1, order = ''nested''\<rparr> lon lat [0, 1, 2, 3, 4, 5, 6, 7, 8, 9, 10, 11])
       = propagate (fst (core_interpolate_bilinear_lonlat c lon lat
           [0, 1, 2, 3, 4, 5, 6, 7, 8, 9, 10, 11] ''nested''))"
proof (intro allI)
  fix c :: "real core" and lon lat :: "real quantity"
  let ?c = "c\<lparr>core_nside_to_npix := nside_to_npix\<rparr>"
  let ?h = "\<lparr>nside = 1, order = ''nested''\<rparr>"
  have n: "core_nside_to_npix ?c (nside ?h) = Inr 12"
    by (simp add: nside_to_npix_def)
  show "core_nside_to_npix ?c (nside ?h) = Inr 12
   \<and> fst (interpolate_bilinear_lonlat ?c ?h lon lat [1, 2, 3]) = Inl ValueLengthMismatch
   \<and> fst (interpolate_bilinear_lonlat ?c ?h lon lat [0, 1, 2, 3, 4, 5, 6, 7, 8, 9, 10, 11])
       = propagate (fst (core_interpolate_bilinear_lonlat c lon lat
           [0, 1, 2, 3, 4, 5, 6, 7, 8, 9, 10, 11] ''nested''))"
    using n interpolate_length_check [OF n, of lon lat "[1, 2, 3]"]
      interpolate_length_check [OF n, of lon lat "[0, 1, 2, 3, 4, 5, 6, 7, 8, 9, 10, 11]"]
    by simp
qed

subsection \<open>The scalar check of the cone search\<close>

text \<open>
  Claim C6. \<^verbatim>\<open>cone_search_lonlat\<close> fails with \<open>InvalidArgumentShape\<close> exactly when
  the longitude, the latitude or the radius is not a scalar, and it does so whatever the
  core's search is: the search is not called. With three scalars the error is not
  raised, and the result is that of the core's search.
\<close>

theorem cone_search_scalar_check:
  "(cone_search_lonlat c h lon lat radius approximate = Inl InvalidArgumentShape
      \<longleftrightarrow> \<not> isscalar lon \<or> \<not> isscalar lat \<or> \<not> isscalar radius)
   \<and> (isscalar lon \<and> isscalar lat \<and> isscalar radius \<longrightarrow>
        cone_search_lonlat c h lon lat radius approximate
          = propagate (core_healpix_cone_search c lon lat radius (nside h) (order h) approximate))"
  by (simp add: cone_search_lonlat_def propagate_not_raised_here)

text \<open>
  An array as longitude, or as radius, is refused for every core; three scalars reach
  the core's search.
\<close>

theorem cone_search_scalar_check_witness:
  "\<forall>(c :: real core).
     cone_search_lonlat c \<lparr>nside = 4, order = ''ring''\<rparr> (Array [0, 1]) (Scalar 0) (Scalar 1)
         (PyBool False)
       = Inl InvalidArgumentShape
   \<and> cone_search_lonlat c \<lparr>nside = 4, order = ''ring''\<rparr> (Scalar 0) (Scalar 0) (Array [1])
         (PyBool False)
       = Inl InvalidArgumentShape
   \<and> cone_search_lonlat c \<lparr>nside = 4, order = ''ring''\<rparr> (Scalar 0) (Scalar 0) (Scalar 1)
         (PyBool False)
       = propagate (core_healpix_cone_search c (Scalar 0) (Scalar 0) (Scalar 1) 4 ''ring''
           (PyBool False))
   \<and> cone_search_lonlat c \<lparr>nside = 4, order = ''ring''\<rparr> (Scalar 0) (Scalar 0) (Scalar 1)
         (PyBool False)
       \<noteq> Inl InvalidArgumentShape"
proof (intro allI)
  fix c :: "real core"
  let ?h = "\<lparr>nside = 4, order = ''ring''\<rparr>"
  show "cone_search_lonlat c ?h (Array [0, 1]) (Scalar 0) (Scalar 1) (PyBool False)
       = Inl InvalidArgumentShape
   \<and> cone_search_lonlat c ?h (Scalar 0) (Scalar 0) (Array [1]) (PyBool False)
       = Inl InvalidArgumentShape
   \<and> cone_search_lonlat c ?h (Scalar 0) (Scalar 0) (Scalar 1) (PyBool False)
       = propagate (core_healpix_cone_search c (Scalar 0) (Scalar 0) (Scalar 1) 4 ''ring''
           (PyBool False))
   \<and> cone_search_lonlat c ?h (Scalar 0) (Scalar 0) (Scalar 1) (PyBool False)
       \<noteq> Inl InvalidArgumentShape"
    using cone_search_scalar_check [of c ?h "Array [0, 1]" "Scalar 0" "Scalar 1" "PyBool False"]
      cone_search_scalar_check [of c ?h "Scalar 0" "Scalar 0" "Array [1]" "PyBool False"]
      cone_search_scalar_check [of c ?h "Scalar 0" "Scalar 0" "Scalar 1" "PyBool False"]
    by (simp add: propagate_not_raised_here)
qed

subsection \<open>A non-positive \<^verbatim>\<open>nside\<close>\<close>

text \<open>
  Claim C7 says that for every \<^verbatim>\<open>nside <= 0\<close> the construction of a handle fails
  with \<open>InvalidResolution\<close>. The initialiser checks only \<^verbatim>\<open>nside is None\<close>: with
  \<^verbatim>\<open>nside = -1\<close> it returns a handle.
\<close>

theorem init_accepts_nonpositive_nside:
  "(-1 :: int) \<le> 0
   \<and> HEALPix_init (Some (-1)) None = Inr \<lparr>nside = -1, order = ''ring''\<rparr>
   \<and> HEALPix_init (Some (-1)) None \<noteq> Inl (Propagated InvalidResolution)"
  by (simp add: HEALPix_init_def)

text \<open>
  Claim C7, amended. The construction of a handle succeeds for every integer
  \<^verbatim>\<open>nside\<close>, also a non-positive one, and stores it as given; it fails only when
  \<^verbatim>\<open>nside\<close> is \<^verbatim>\<open>None\<close>, with "nside has not been set". The property
  \<^verbatim>\<open>npix\<close> of a handle returns or raises what \<^verbatim>\<open>nside_to_npix\<close> does for the
  handle's \<^verbatim>\<open>nside\<close>; with the pixel count of the specification, which fails with
  \<open>InvalidResolution\<close> for every \<^verbatim>\<open>nside <= 0\<close>, so does \<^verbatim>\<open>npix\<close>.
\<close>

theorem nonpositive_nside_rejected_by_npix_only:
  "HEALPix_init (Some n) order_arg
     = Inr \<lparr>nside = n, order = (case order_arg of None \<Rightarrow> ''ring'' | Some s \<Rightarrow> s)\<rparr>
   \<and> (HEALPix_init nside_arg order_arg = Inl NsideNotSet \<longleftrightarrow> nside_arg = None)
   \<and> npix c h = propagate (core_nside_to_npix c (nside h))
   \<and> (n \<le> 0 \<longrightarrow> nside_to_npix n = Inl InvalidResolution)
   \<and> (nside h \<le> 0 \<longrightarrow>
        npix (c\<lparr>core_nside_to_npix := nside_to_npix\<rparr>) h = Inl (Propagated InvalidResolution))"
  by (simp add: HEALPix_init_def nside_to_npix_def npix_def propagate_simps split: option.split)

theorem nonpositive_nside_rejected_by_npix_only_witness:
  "\<forall>(c :: real core).
     (0 :: int) \<le> 0
   \<and> HEALPix_init (Some 0) (Some ''nested'') = Inr \<lparr>nside = 0, order = ''nested''\<rparr>
   \<and> nside_to_npix 0 = Inl InvalidResolution
   \<and> npix (c\<lparr>core_nside_to_npix := nside_to_npix\<rparr>) \<lparr>nside = 0, order = ''nested''\<rparr>
       = Inl (Propagated InvalidResolution)"
proof (intro allI)
  fix c :: "real core"
  show "(0 :: int) \<le> 0
   \<and> HEALPix_init (Some 0) (Some ''nested'') = Inr \<lparr>nside = 0, order = ''nested''\<rparr>
   \<and> nside_to_npix 0 = Inl InvalidResolution
   \<and> npix (c\<lparr>core_nside_to_npix := nside_to_npix\<rparr>) \<lparr>nside = 0, order = ''nested''\<rparr>
       = Inl (Propagated InvalidResolution)"
    using nonpositive_nside_rejected_by_npix_only
      [of 0 "Some ''nested''" "Some 0" c "\<lparr>nside = 0, order = ''nested''\<rparr>"]
    by simp
qed

subsection \<open>The pixel count\<close>

text \<open>
  Claim C8. For every positive \<^verbatim>\<open>nside\<close>, the pixel count is exactly
  \<^verbatim>\<open>12 * nside^2\<close>, and so is the property \<^verbatim>\<open>npix\<close> of a handle with that
  \<^verbatim>\<open>nside\<close>, which returns what the pixel count function of the core returns.
\<close>

theorem npix_value:
  assumes "0 < nside h" and "core_nside_to_npix c = nside_to_npix"
  shows "nside_to_npix (nside h) = Inr (12 * (nside h)\<^sup>2)
       \<and> npix c h = Inr (12 * (nside h)\<^sup>2)"
  using assms by (simp add: npix_def nside_to_npix_def propagate_simps)

theorem npix_value_witness:
  "\<forall>(c :: real core).
     0 < nside \<lparr>nside = 4, order = ''ring''\<rparr>
   \<and> core_nside_to_npix (c\<lparr>core_nside_to_npix := nside_to_npix\<rparr>) = nside_to_npix
   \<and> nside_to_npix 4 = Inr 192
   \<and> npix (c\<lparr>core_nside_to_npix := nside_to_npix\<rparr>) \<lparr>nside = 4, order = ''ring''\<rparr> = Inr 192"
proof (intro allI)
  fix c :: "real core"
  let ?c = "c\<lparr>core_nside_to_npix := nside_to_npix\<rparr>"
  have pos: "0 < nside \<lparr>nside = 4, order = ''ring''\<rparr>" by simp
  have eq: "core_nside_to_npix ?c = nside_to_npix" by simp
  show "0 < nside \<lparr>nside = 4, order = ''ring''\<rparr>
   \<and> core_nside_to_npix ?c = nside_to_npix
   \<and> nside_to_npix 4 = Inr 192
   \<and> npix ?c \<lparr>nside = 4, order = ''ring''\<rparr> = Inr 192"
    using pos eq npix_value [OF pos eq] by simp
qed

subsection \<open>The default order\<close>

text \<open>
  Claim C10. A handle constructed without an \<^verbatim>\<open>order\<close> argument has the order
  \<^verbatim>\<open>'ring'\<close> (a handle of the subclass too), and the conversions between indices and coordinates, the interpolation
  and the cone search on that handle all pass \<^verbatim>\<open>'ring'\<close> to the core as the order.
\<close>

theorem default_order_is_ring:
  "HEALPix_init (Some n) None = Inr \<lparr>nside = n, order = ''ring''\<rparr>
   \<and> CelestialHEALPix_init a (Some n) None frame_arg
       = Inr \<lparr>nside = n, order = ''ring'',
              frame = (case frame_arg of None \<Rightarrow> ICRS a | Some fr \<Rightarrow> fr)\<rparr>
   \<and> (HEALPix_init (Some n) None = Inr h \<longrightarrow>
        order h = ''ring''
      \<and> healpix_to_lonlat c h healpix_index dx dy
          = propagate (core_healpix_to_lonlat c healpix_index n dx dy ''ring'')
      \<and> lonlat_to_healpix c h lon lat return_offsets
          = propagate (core_lonlat_to_healpix c lon lat n return_offsets ''ring'')
      \<and> interpolate_bilinear_lonlat c h lon lat vals
          = (case npix c h of
               Inl e \<Rightarrow> (Inl e, vals)
             | Inr m \<Rightarrow>
                 if int (length vals) \<noteq> m then (Inl ValueLengthMismatch, vals)
                 else (propagate (fst (core_interpolate_bilinear_lonlat c lon lat vals ''ring'')),
                       snd (core_interpolate_bilinear_lonlat c lon lat vals ''ring'')))
      \<and> cone_search_lonlat c h lon lat radius approximate
          = (if \<not> isscalar lon \<or> \<not> isscalar lat \<or> \<not> isscalar radius
             then Inl InvalidArgumentShape
             else propagate (core_healpix_cone_search c lon lat radius n ''ring'' approximate)))"
  by (auto simp: HEALPix_init_def CelestialHEALPix_init_def healpix_to_lonlat_def
      lonlat_to_healpix_def interpolate_bilinear_lonlat_def cone_search_lonlat_def
      split: sum.split prod.split)

text \<open>At \<^verbatim>\<open>nside = 4\<close>, for every core.\<close>

theorem default_order_is_ring_witness:
  "\<forall>(c :: real core) (a :: (real, unit, unit) astropy).
     HEALPix_init (Some 4) None = Inr \<lparr>nside = 4, order = ''ring''\<rparr>
   \<and> CelestialHEALPix_init a (Some 4) None None
       = Inr \<lparr>nside = 4, order = ''ring'', frame = ICRS a\<rparr>
   \<and> healpix_to_lonlat c \<lparr>nside = 4, order = ''ring''\<rparr> [0, 191] None None
       = propagate (core_healpix_to_lonlat c [0, 191] 4 None None ''ring'')
   \<and> lonlat_to_healpix c \<lparr>nside = 4, order = ''ring''\<rparr> (Scalar 0) (Scalar 0) False
       = propagate (core_lonlat_to_healpix c (Scalar 0) (Scalar 0) 4 False ''ring'')
   \<and> cone_search_lonlat c \<lparr>nside = 4, order = ''ring''\<rparr> (Scalar 0) (Scalar 0) (Scalar 1)
         (PyBool False)
       = propagate (core_healpix_cone_search c (Scalar 0) (Scalar 0) (Scalar 1) 4 ''ring''
           (PyBool False))"
proof (intro allI)
  fix c :: "real core" and a :: "(real, unit, unit) astropy"
  let ?h = "\<lparr>nside = 4, order = ''ring''\<rparr>"
  show "HEALPix_init (Some 4) None = Inr ?h
   \<and> CelestialHEALPix_init a (Some 4) None None
       = Inr \<lparr>nside = 4, order = ''ring'', frame = ICRS a\<rparr>
   \<and> healpix_to_lonlat c ?h [0, 191] None None
       = propagate (core_healpix_to_lonlat c [0, 191] 4 None None ''ring'')
   \<and> lonlat_to_healpix c ?h (Scalar 0) (Scalar 0) False
       = propagate (core_lonlat_to_healpix c (Scalar 0) (Scalar 0) 4 False ''ring'')
   \<and> cone_search_lonlat c ?h (Scalar 0) (Scalar 0) (Scalar 1) (PyBool False)
       = propagate (core_healpix_cone_search c (Scalar 0) (Scalar 0) (Scalar 1) 4 ''ring''
           (PyBool False))"
    using default_order_is_ring
      [where n = 4 and h = ?h and c = c and a = a and frame_arg = None
         and healpix_index = "[0, 191]" and dx = None and dy = None
         and lon = "Scalar 0" and lat = "Scalar 0" and return_offsets = False
         and vals = "[]" and radius = "Scalar 1" and approximate = "PyBool False"]
    by simp
qed

section \<open>Properties of the two orderings\<close>

subsection \<open>Interleaving two bit fields and taking them apart\<close>

lemma spread_bits_step: "0 \<le> v \<Longrightarrow> spread_bits v = v mod 2 + 4 * spread_bits (v div 2)"
  by (subst spread_bits.simps) (auto simp: spread_bits.simps [of 0])

lemma compress_bits_step: "0 \<le> v \<Longrightarrow> compress_bits v = v mod 2 + 2 * compress_bits (v div 4)"
  by (subst compress_bits.simps) (auto simp: compress_bits.simps [of 0])

lemma spread_bits_0 [simp]: "spread_bits 0 = 0"
  by (simp add: spread_bits.simps)

lemma compress_bits_0 [simp]: "compress_bits 0 = 0"
  by (simp add: compress_bits.simps)

lemma split_low:
  fixes a m n :: int
  assumes "0 \<le> a" "a < n"
  shows "(a + n * m) mod n = a" "(a + n * m) div n = m"
  using assms by simp_all

lemma div_2_div_4: "(p div 2) div 4 = (p div 4) div (2::int)"
  by (simp add: zdiv_zmult2_eq flip: zdiv_zmult2_eq)

lemma two_bits_low:
  fixes a b s :: int
  assumes "0 \<le> a" "a \<le> 1" "0 \<le> b" "b \<le> 1"
  shows "(a + 2 * b + 4 * s) mod 2 = a" "(a + 2 * b + 4 * s) div 4 = s"
    "(a + 2 * b + 4 * s) div 2 = b + 2 * s"
  using split_low(1) [of a 2 "b + 2 * s"] split_low(2) [of "a + 2 * b" 4 s]
    split_low(2) [of a 2 "b + 2 * s"] assms
  by (simp_all add: algebra_simps)

lemma one_bit_low:
  fixes b s :: int
  assumes "0 \<le> b" "b \<le> 1"
  shows "(b + 2 * s) mod 2 = b" "(b + 2 * s) div 2 = s" "(b + 2 * s) div 4 = s div 2"
proof -
  show "(b + 2 * s) mod 2 = b" "(b + 2 * s) div 2 = s"
    using split_low [of b 2 s] assms by simp_all
  moreover have "(b + 2 * s) div 4 = ((b + 2 * s) div 2) div 2"
    by (simp add: zdiv_zmult2_eq flip: zdiv_zmult2_eq)
  ultimately show "(b + 2 * s) div 4 = s div 2" by simp
qed

lemma low_two_bits: "p = p mod 2 + 2 * ((p div 2) mod 2) + 4 * (p div (4::int))"
proof -
  have "p = p mod 2 + 2 * (p div 2)" by simp
  moreover have "p div 2 = (p div 2) mod 2 + 2 * ((p div 2) div 2)" by simp
  moreover have "(p div 2) div 2 = p div 4"
    by (simp add: zdiv_zmult2_eq flip: zdiv_zmult2_eq)
  ultimately show ?thesis by linarith
qed

lemma spread_bits_range:
  "0 \<le> x \<Longrightarrow> x < 2 ^ k \<Longrightarrow> 0 \<le> spread_bits x \<and> 3 * spread_bits x < 4 ^ k"
proof (induction k arbitrary: x)
  case 0
  then have "x = 0" by simp
  then show ?case by simp
next
  case (Suc k)
  have h: "0 \<le> x div 2" "x div 2 < 2 ^ k"
    using Suc.prems by auto
  have ih: "0 \<le> spread_bits (x div 2)" "3 * spread_bits (x div 2) < 4 ^ k"
    using Suc.IH [OF h] by auto
  have m: "0 \<le> x mod 2" "x mod 2 \<le> 1" by auto
  have "spread_bits x = x mod 2 + 4 * spread_bits (x div 2)"
    using Suc.prems(1) by (rule spread_bits_step)
  with ih m show ?case by simp
qed

lemma interleave_range:
  assumes "0 \<le> x" "x < 2 ^ k" "0 \<le> y" "y < 2 ^ k"
  shows "0 \<le> spread_bits x + 2 * spread_bits y" "spread_bits x + 2 * spread_bits y < 4 ^ k"
  using spread_bits_range [OF assms(1,2)] spread_bits_range [OF assms(3,4)] by auto

lemma compress_interleave:
  "0 \<le> x \<Longrightarrow> x < 2 ^ k \<Longrightarrow> 0 \<le> y \<Longrightarrow> y < 2 ^ k \<Longrightarrow>
     compress_bits (spread_bits x + 2 * spread_bits y) = x
   \<and> compress_bits ((spread_bits x + 2 * spread_bits y) div 2) = y"
proof (induction k arbitrary: x y)
  case 0
  then have "x = 0" "y = 0" by simp_all
  then show ?case by simp
next
  case (Suc k)
  define x' y' where "x' = x div 2" and "y' = y div 2"
  define a b where "a = x mod 2" and "b = y mod 2"
  define s' where "s' = spread_bits x' + 2 * spread_bits y'"
  have bounds: "0 \<le> x'" "x' < 2 ^ k" "0 \<le> y'" "y' < 2 ^ k"
    using Suc.prems by (auto simp: x'_def y'_def)
  have ab: "0 \<le> a" "a \<le> 1" "0 \<le> b" "b \<le> 1"
    by (auto simp: a_def b_def)
  have xy: "x = a + 2 * x'" "y = b + 2 * y'"
    by (auto simp: a_def b_def x'_def y'_def)
  have s'0: "0 \<le> s'"
    using interleave_range [OF bounds] by (simp add: s'_def)
  have ih: "compress_bits s' = x'" "compress_bits (s' div 2) = y'"
    using Suc.IH [OF bounds] by (auto simp: s'_def)
  have sx: "spread_bits x = a + 4 * spread_bits x'"
    unfolding a_def x'_def using Suc.prems(1) by (rule spread_bits_step)
  have sy: "spread_bits y = b + 4 * spread_bits y'"
    unfolding b_def y'_def using Suc.prems(3) by (rule spread_bits_step)
  have s: "spread_bits x + 2 * spread_bits y = a + 2 * b + 4 * s'"
    by (simp add: sx sy s'_def)
  have s0: "0 \<le> a + 2 * b + 4 * s'" using ab s'0 by simp
  have m1: "(a + 2 * b + 4 * s') mod 2 = a" and d1: "(a + 2 * b + 4 * s') div 4 = s'"
    and hf: "(a + 2 * b + 4 * s') div 2 = b + 2 * s'"
    using two_bits_low [OF ab] by simp_all
  have h0: "0 \<le> (a + 2 * b + 4 * s') div 2" using s0 by simp
  have m2: "((a + 2 * b + 4 * s') div 2) mod 2 = b"
    and d2: "((a + 2 * b + 4 * s') div 2) div 4 = s' div 2"
    using one_bit_low [OF ab(3,4), of s'] by (simp_all add: hf)
  have "compress_bits (a + 2 * b + 4 * s') = a + 2 * x'"
    using compress_bits_step [OF s0] by (simp add: m1 d1 ih)
  then have c1: "compress_bits (a + 2 * b + 4 * s') = x"
    using xy(1) by simp
  have "compress_bits ((a + 2 * b + 4 * s') div 2) = b + 2 * y'"
    using compress_bits_step [OF h0] by (simp add: m2 d2 ih)
  then have c2: "compress_bits ((a + 2 * b + 4 * s') div 2) = y"
    using xy(2) by simp
  show ?case
    unfolding s by (intro conjI c1 c2)
qed

lemma compress_bits_range:
  "0 \<le> p \<Longrightarrow> p < 4 ^ k \<Longrightarrow> 0 \<le> compress_bits p \<and> compress_bits p < 2 ^ k"
proof (induction k arbitrary: p)
  case 0
  then have "p = 0" by simp
  then show ?case by simp
next
  case (Suc k)
  have h: "0 \<le> p div 4" "p div 4 < 4 ^ k"
    using Suc.prems by auto
  have ih: "0 \<le> compress_bits (p div 4)" "compress_bits (p div 4) < 2 ^ k"
    using Suc.IH [OF h] by auto
  have m: "0 \<le> p mod 2" "p mod 2 \<le> 1" by auto
  have "compress_bits p = p mod 2 + 2 * compress_bits (p div 4)"
    using Suc.prems(1) by (rule compress_bits_step)
  with ih m show ?case by simp
qed

lemma interleave_compress:
  "0 \<le> p \<Longrightarrow> p < 4 ^ k \<Longrightarrow>
     spread_bits (compress_bits p) + 2 * spread_bits (compress_bits (p div 2)) = p"
proof (induction k arbitrary: p)
  case 0
  then have "p = 0" by simp
  then show ?case by simp
next
  case (Suc k)
  define p' where "p' = p div 4"
  have h: "0 \<le> p'" "p' < 4 ^ k"
    using Suc.prems by (auto simp: p'_def)
  have ih: "spread_bits (compress_bits p') + 2 * spread_bits (compress_bits (p' div 2)) = p'"
    using Suc.IH [OF h] .
  have c0: "0 \<le> compress_bits p'" using compress_bits_range [OF h] by simp
  have h2: "0 \<le> p' div 2" "p' div 2 < 4 ^ k" using h by auto
  have c1: "0 \<le> compress_bits (p' div 2)" using compress_bits_range [OF h2] by simp
  have e1: "compress_bits p = p mod 2 + 2 * compress_bits p'"
    unfolding p'_def using Suc.prems(1) by (rule compress_bits_step)
  have p2: "0 \<le> p div 2" using Suc.prems by simp
  have "(p div 2) div 4 = p' div 2" unfolding p'_def by (rule div_2_div_4)
  then have e2: "compress_bits (p div 2) = (p div 2) mod 2 + 2 * compress_bits (p' div 2)"
    using compress_bits_step [OF p2] by simp
  have m: "0 \<le> p mod 2" "0 \<le> (p div 2) mod 2" by auto
  have s1: "spread_bits (p mod 2 + 2 * compress_bits p') = p mod 2 + 4 * spread_bits (compress_bits p')"
  proof -
    have "0 \<le> p mod 2 + 2 * compress_bits p'" using m c0 by simp
    moreover have "(p mod 2 + 2 * compress_bits p') mod 2 = p mod 2"
      "(p mod 2 + 2 * compress_bits p') div 2 = compress_bits p'"
      using one_bit_low(1,2) [of "p mod 2" "compress_bits p'"] by simp_all
    ultimately show ?thesis
      using spread_bits_step [of "p mod 2 + 2 * compress_bits p'"] by simp
  qed
  have s2: "spread_bits ((p div 2) mod 2 + 2 * compress_bits (p' div 2))
              = (p div 2) mod 2 + 4 * spread_bits (compress_bits (p' div 2))"
  proof -
    have "0 \<le> (p div 2) mod 2 + 2 * compress_bits (p' div 2)" using m c1 by simp
    moreover have "((p div 2) mod 2 + 2 * compress_bits (p' div 2)) mod 2 = (p div 2) mod 2"
      "((p div 2) mod 2 + 2 * compress_bits (p' div 2)) div 2 = compress_bits (p' div 2)"
      using one_bit_low(1,2) [of "(p div 2) mod 2" "compress_bits (p' div 2)"] by simp_all
    ultimately show ?thesis
      using spread_bits_step [of "(p div 2) mod 2 + 2 * compress_bits (p' div 2)"] by simp
  qed
  have "p = p mod 2 + 2 * ((p div 2) mod 2) + 4 * p'"
    unfolding p'_def by (rule low_two_bits)
  then show ?case
    using ih by (simp add: e1 e2 s1 s2)
qed

subsection \<open>A tile's pixels on the rings, and back\<close>

text \<open>
  One lemma for each row of tiles and each zone its pixels reach: the place of the pixel
  \<open>(x, y)\<close> of the tile is a place of its ring, and \<open>xy_of_ringpos\<close> finds the tile
  and the coordinates again.
\<close>

lemma div_offset:
  fixes a b c n :: int
  shows "0 \<le> b \<Longrightarrow> b < n \<Longrightarrow> a = c * n + b \<Longrightarrow> a div n = c"
  by simp

lemma face_tables:
  assumes "0 \<le> c" "c \<le> 3"
  shows "jrll c = 2" "jrll (c + 4) = 3" "jrll (c + 8) = 4"
    "jpll c = 2 * c + 1" "jpll (c + 4) = 2 * c" "jpll (c + 8) = 2 * c + 1"
proof -
  have d: "c div 4 = 0" "c mod 4 = c" using assms by simp_all
  have d4: "(c + 4) div 4 = 1" "(c + 4) mod 4 = c"
    using assms by presburger+
  have d8: "(c + 8) div 4 = 2" "(c + 8) mod 4 = c"
    using assms by presburger+
  show "jrll c = 2" "jrll (c + 4) = 3" "jrll (c + 8) = 4"
    "jpll c = 2 * c + 1" "jpll (c + 4) = 2 * c" "jpll (c + 8) = 2 * c + 1"
    by (simp_all add: jrll_def jpll_def d d4 d8)
qed

lemma xy_of_ringpos_eq:
  assumes "face_of_ringpos N r j = f"
    and "r - jrll f * N + 1 = - (x + y)"
    and "2 * j - jpll f * quarter N r - kshift N r - 1 = i0"
    and "(if 2 * N \<le> i0 then i0 - 8 * N else i0) = x - y"
  shows "xy_of_ringpos N r j = (f, x, y)"
proof -
  have "(x - y - - (x + y)) div 2 = x" "(- (x - y) - - (x + y)) div 2 = y"
    by simp_all
  then show ?thesis
    unfolding xy_of_ringpos_def Let_def assms by simp
qed

lemma halves:
  fixes t N :: int
  assumes k_def: "k = t mod 2" and h_def: "h = (t + 1) div 2"
  shows "2 * h = t + k" "0 \<le> k" "k \<le> 1" "(2 * N + 1 - t) div 2 = N - h + k"
proof -
  show k: "0 \<le> k" "k \<le> 1" by (simp_all add: k_def)
  have t: "t = 2 * (t div 2) + k" by (simp add: k_def)
  have "(t + 1) div 2 = t div 2 + k"
  proof (cases "k = 0")
    case True
    then have "t + 1 = (t div 2) * 2 + 1" using t by simp
    then have "(t + 1) div 2 = t div 2"
      by (intro div_offset [of 1]) simp_all
    with True show ?thesis by simp
  next
    case False
    with k have "k = 1" by simp
    then have "t + 1 = 2 * (t div 2 + 1)" using t by simp
    then have "(t + 1) div 2 = t div 2 + 1" by simp
    with \<open>k = 1\<close> show ?thesis by simp
  qed
  then have h: "h = t div 2 + k" by (simp add: h_def)
  show "2 * h = t + k" using h t by simp
  have "2 * N + 1 - t = (N - t div 2) * 2 + (1 - k)" using t by simp
  then have "(2 * N + 1 - t) div 2 = N - t div 2"
    using k by (intro div_offset [of "1 - k"]) simp_all
  then show "(2 * N + 1 - t) div 2 = N - h + k" using h by simp
qed

lemma face_of_ringpos_belt:
  assumes "N \<le> r" "r \<le> 3 * N"
    and "(j - (r - N + 1) div 2 + N - 1) div N = ifm"
    and "(j - (3 * N + 1 - r) div 2 + N - 1) div N = ifp"
  shows "face_of_ringpos N r j =
           (if ifp = ifm then ifp mod 4 + 4 else if ifp < ifm then ifp else ifm + 8)"
  unfolding face_of_ringpos_def Let_def assms(3,4) using assms(1,2) by simp

lemma north_cap:
  assumes N: "0 < N" and c: "0 \<le> c" "c \<le> 3"
    and x: "0 \<le> x" "x < N" and y: "0 \<le> y" "y < N" and cap: "N \<le> x + y"
  defines "r \<equiv> ring_of_xy N c x y" and "j \<equiv> pos_of_xy N c x y"
  shows "1 \<le> r \<and> r \<le> 4 * N - 1 \<and> 1 \<le> j \<and> j \<le> 4 * quarter N r
       \<and> xy_of_ringpos N r j = (c, x, y)"
proof -
  note ft = face_tables [OF c]
  have r: "r = 2 * N - x - y - 1"
    by (simp add: r_def ring_of_xy_def ft)
  have rb: "1 \<le> r" "r < N"
    using x y cap by (simp_all add: r)
  have q: "quarter N r = r"
    using rb N by (simp add: quarter_def)
  have k: "kshift N r = 0"
    using rb by (simp add: kshift_def)
  have "jpll c * r + x - y + 1 + 0 = 2 * (c * r + N - y)"
    by (simp add: ft r algebra_simps)
  then have half: "(jpll c * r + x - y + 1 + 0) div 2 = c * r + N - y"
    by simp
  have cr: "0 \<le> c * r" "c * r \<le> 3 * r"
    using c rb by (simp_all add: mult_right_mono)
  have low: "1 \<le> N - y" "N - y \<le> r"
    using x y by (simp_all add: r)
  have j: "j = c * r + N - y"
    unfolding j_def pos_of_xy_def Let_def r_def [symmetric] q k half using cr low by simp
  have jb: "1 \<le> j" "j \<le> 4 * quarter N r"
    unfolding j q using cr low by linarith+
  have f: "face_of_ringpos N r j = c"
  proof -
    have "(c * r + N - y - 1) div r = c"
      using low by (intro div_offset [of "N - y - 1"]) simp_all
    then show ?thesis
      using rb by (simp add: face_of_ringpos_def q j)
  qed
  have "xy_of_ringpos N r j = (c, x, y)"
  proof (rule xy_of_ringpos_eq [OF f])
    show "r - jrll c * N + 1 = - (x + y)"
      by (simp add: ft r)
    show "2 * j - jpll c * quarter N r - kshift N r - 1 = x - y"
      unfolding q k ft j by (simp add: r algebra_simps)
    show "(if 2 * N \<le> x - y then x - y - 8 * N else x - y) = x - y"
      using x y by simp
  qed
  with rb jb N show ?thesis by simp
qed

lemma south_cap:
  assumes N: "0 < N" and c: "0 \<le> c" "c \<le> 3"
    and x: "0 \<le> x" "x < N" and y: "0 \<le> y" "y < N" and cap: "x + y \<le> N - 2"
  defines "r \<equiv> ring_of_xy N (c + 8) x y" and "j \<equiv> pos_of_xy N (c + 8) x y"
  shows "1 \<le> r \<and> r \<le> 4 * N - 1 \<and> 1 \<le> j \<and> j \<le> 4 * quarter N r
       \<and> xy_of_ringpos N r j = (c + 8, x, y)"
proof -
  note ft = face_tables [OF c]
  define m where "m = x + y + 1"
  have r: "r = 4 * N - x - y - 1"
    by (simp add: r_def ring_of_xy_def ft)
  have rb: "3 * N < r" "r \<le> 4 * N - 1"
    using x y cap by (simp_all add: r)
  have q: "quarter N r = m"
    using rb N x y cap by (simp add: quarter_def r m_def)
  have k: "kshift N r = 0"
    using rb by (simp add: kshift_def)
  have mb: "1 \<le> m" using x y by (simp add: m_def)
  have "jpll (c + 8) * m + x - y + 1 + 0 = 2 * (c * m + x + 1)"
    by (simp add: ft m_def algebra_simps)
  then have half: "(jpll (c + 8) * m + x - y + 1 + 0) div 2 = c * m + x + 1"
    by simp
  have cm: "0 \<le> c * m" "c * m \<le> 3 * m"
    using c mb by (simp_all add: mult_right_mono)
  have low: "0 \<le> x" "x < m"
    using x y by (simp_all add: m_def)
  have j: "j = c * m + x + 1"
    unfolding j_def pos_of_xy_def Let_def r_def [symmetric] q k half using cm low by simp
  have jb: "1 \<le> j" "j \<le> 4 * quarter N r"
    unfolding j q using cm low by linarith+
  have f: "face_of_ringpos N r j = c + 8"
  proof -
    have "(c * m + x + 1 - 1) div m = c"
      using low by (intro div_offset [of x]) simp_all
    then show ?thesis
      using rb N by (simp add: face_of_ringpos_def q j)
  qed
  have "xy_of_ringpos N r j = (c + 8, x, y)"
  proof (rule xy_of_ringpos_eq [OF f])
    show "r - jrll (c + 8) * N + 1 = - (x + y)"
      by (simp add: ft r)
    show "2 * j - jpll (c + 8) * quarter N r - kshift N r - 1 = x - y"
      unfolding q k ft j by (simp add: m_def algebra_simps)
    show "(if 2 * N \<le> x - y then x - y - 8 * N else x - y) = x - y"
      using x y by simp
  qed
  with rb jb N show ?thesis by simp
qed

lemma north_belt:
  assumes N: "0 < N" and c: "0 \<le> c" "c \<le> 3"
    and x: "0 \<le> x" "x < N" and y: "0 \<le> y" "y < N" and belt: "x + y \<le> N - 1"
  defines "r \<equiv> ring_of_xy N c x y" and "j \<equiv> pos_of_xy N c x y"
  shows "1 \<le> r \<and> r \<le> 4 * N - 1 \<and> 1 \<le> j \<and> j \<le> 4 * quarter N r
       \<and> xy_of_ringpos N r j = (c, x, y)"
proof -
  note ft = face_tables [OF c]
  define t where "t = r - N"
  define k where "k = t mod 2"
  define h where "h = (t + 1) div 2"
  note hv = halves [OF k_def h_def]
  have r: "r = 2 * N - x - y - 1"
    by (simp add: r_def ring_of_xy_def ft)
  have t: "t = N - 1 - x - y" by (simp add: t_def r)
  have rb: "N \<le> r" "r \<le> 2 * N - 1"
    using x y belt by (simp_all add: r)
  have q: "quarter N r = N"
    using rb N by (simp add: quarter_def)
  have ks: "kshift N r = k"
    using rb N by (simp add: kshift_def k_def t_def)
  have cn: "0 \<le> c * N" "c * N \<le> 3 * N"
    using c N by (simp_all add: mult_right_mono)
  have "jpll c * N + x - y + 1 + k = 2 * (c * N + h + x + 1)"
    using hv(1) by (simp add: ft t algebra_simps)
  then have half: "(jpll c * N + x - y + 1 + k) div 2 = c * N + h + x + 1"
    by simp
  have hb: "0 \<le> h" "h + x + 1 \<le> N"
    using hv(1,2,3) x y belt t by linarith+
  have j: "j = c * N + h + x + 1"
    unfolding j_def pos_of_xy_def Let_def r_def [symmetric] q ks half using cn hb x by simp
  have jb: "1 \<le> j" "j \<le> 4 * quarter N r"
    unfolding j q using cn hb x by linarith+
  have f: "face_of_ringpos N r j = c"
  proof -
    have e1: "(r - N + 1) div 2 = h" by (simp add: h_def t_def)
    have "3 * N + 1 - r = 2 * N + 1 - t" by (simp add: t_def)
    then have e2: "(3 * N + 1 - r) div 2 = N - h + k"
      by (simp only: hv(4))
    have "j - h + N - 1 = (c + 1) * N + x"
      by (simp add: j algebra_simps)
    then have ifm: "(j - (r - N + 1) div 2 + N - 1) div N = c + 1"
      unfolding e1 using x by (intro div_offset [of x]) simp_all
    have "j - (N - h + k) + N - 1 = c * N + (N - 1 - y)"
      using hv(1) by (simp add: j t algebra_simps)
    then have ifp: "(j - (3 * N + 1 - r) div 2 + N - 1) div N = c"
      unfolding e2 using y by (intro div_offset [of "N - 1 - y"]) simp_all
    show ?thesis
      using face_of_ringpos_belt [OF _ _ ifm ifp] rb N by simp
  qed
  have "xy_of_ringpos N r j = (c, x, y)"
  proof (rule xy_of_ringpos_eq [OF f])
    show "r - jrll c * N + 1 = - (x + y)"
      by (simp add: ft r)
    show "2 * j - jpll c * quarter N r - kshift N r - 1 = x - y"
      unfolding q ks ft j using hv(1) by (simp add: t algebra_simps)
    show "(if 2 * N \<le> x - y then x - y - 8 * N else x - y) = x - y"
      using x y by simp
  qed
  with rb jb N show ?thesis by simp
qed

lemma south_belt:
  assumes N: "0 < N" and c: "0 \<le> c" "c \<le> 3"
    and x: "0 \<le> x" "x < N" and y: "0 \<le> y" "y < N" and belt: "N - 1 \<le> x + y"
  defines "r \<equiv> ring_of_xy N (c + 8) x y" and "j \<equiv> pos_of_xy N (c + 8) x y"
  shows "1 \<le> r \<and> r \<le> 4 * N - 1 \<and> 1 \<le> j \<and> j \<le> 4 * quarter N r
       \<and> xy_of_ringpos N r j = (c + 8, x, y)"
proof -
  note ft = face_tables [OF c]
  define t where "t = r - N"
  define k where "k = t mod 2"
  define h where "h = (t + 1) div 2"
  note hv = halves [OF k_def h_def]
  have r: "r = 4 * N - x - y - 1"
    by (simp add: r_def ring_of_xy_def ft)
  have t: "t = 3 * N - 1 - x - y" by (simp add: t_def r)
  have rb: "2 * N + 1 \<le> r" "r \<le> 3 * N"
    using x y belt by (simp_all add: r)
  have q: "quarter N r = N"
    using rb N by (simp add: quarter_def)
  have ks: "kshift N r = k"
    using rb N by (simp add: kshift_def k_def t_def)
  have cn: "0 \<le> c * N" "c * N \<le> 3 * N"
    using c N by (simp_all add: mult_right_mono)
  have "jpll (c + 8) * N + x - y + 1 + k = 2 * (c * N + h + x + 1 - N)"
    using hv(1) by (simp add: ft t algebra_simps)
  then have half: "(jpll (c + 8) * N + x - y + 1 + k) div 2 = c * N + h + x + 1 - N"
    by simp
  have hb: "1 \<le> h + x + 1 - N" "h + x + 1 - N \<le> N"
    using hv(1,2,3) x y belt t by linarith+
  have j: "j = c * N + h + x + 1 - N"
    unfolding j_def pos_of_xy_def Let_def r_def [symmetric] q ks half using cn hb by simp
  have jb: "1 \<le> j" "j \<le> 4 * quarter N r"
    unfolding j q using cn hb by linarith+
  have f: "face_of_ringpos N r j = c + 8"
  proof -
    have e1: "(r - N + 1) div 2 = h" by (simp add: h_def t_def)
    have "3 * N + 1 - r = 2 * N + 1 - t" by (simp add: t_def)
    then have e2: "(3 * N + 1 - r) div 2 = N - h + k"
      by (simp only: hv(4))
    have "j - h + N - 1 = c * N + x"
      by (simp add: j algebra_simps)
    then have ifm: "(j - (r - N + 1) div 2 + N - 1) div N = c"
      unfolding e1 using x by (intro div_offset [of x]) simp_all
    have "j - (N - h + k) + N - 1 = (c + 1) * N + (N - 1 - y)"
      using hv(1) by (simp add: j t algebra_simps)
    then have ifp: "(j - (3 * N + 1 - r) div 2 + N - 1) div N = c + 1"
      unfolding e2 using y by (intro div_offset [of "N - 1 - y"]) simp_all
    show ?thesis
      using face_of_ringpos_belt [OF _ _ ifm ifp] rb N by simp
  qed
  have "xy_of_ringpos N r j = (c + 8, x, y)"
  proof (rule xy_of_ringpos_eq [OF f])
    show "r - jrll (c + 8) * N + 1 = - (x + y)"
      by (simp add: ft r)
    show "2 * j - jpll (c + 8) * quarter N r - kshift N r - 1 = x - y"
      unfolding q ks ft j using hv(1) by (simp add: t algebra_simps)
    show "(if 2 * N \<le> x - y then x - y - 8 * N else x - y) = x - y"
      using x y by simp
  qed
  with rb jb N show ?thesis by simp
qed

lemma equatorial_belt:
  assumes N: "0 < N" and c: "0 \<le> c" "c \<le> 3"
    and x: "0 \<le> x" "x < N" and y: "0 \<le> y" "y < N"
  defines "r \<equiv> ring_of_xy N (c + 4) x y" and "j \<equiv> pos_of_xy N (c + 4) x y"
  shows "1 \<le> r \<and> r \<le> 4 * N - 1 \<and> 1 \<le> j \<and> j \<le> 4 * quarter N r
       \<and> xy_of_ringpos N r j = (c + 4, x, y)"
proof -
  note ft = face_tables [OF c]
  define t where "t = r - N"
  define k where "k = t mod 2"
  define h where "h = (t + 1) div 2"
  define j0 where "j0 = c * N + h + x + 1 - N"
  note hv = halves [OF k_def h_def]
  have r: "r = 3 * N - x - y - 1"
    by (simp add: r_def ring_of_xy_def ft)
  have t: "t = 2 * N - 1 - x - y" by (simp add: t_def r)
  have rb: "N + 1 \<le> r" "r \<le> 3 * N - 1"
    using x y by (simp_all add: r)
  have q: "quarter N r = N"
    using rb N by (simp add: quarter_def)
  have ks: "kshift N r = k"
    using rb N by (simp add: kshift_def k_def t_def)
  have cn: "0 \<le> c * N" "c * N \<le> 3 * N"
    using c N by (simp_all add: mult_right_mono)
  have "jpll (c + 4) * N + x - y + 1 + k = 2 * j0"
    using hv(1) by (simp add: ft t j0_def algebra_simps)
  then have half: "(jpll (c + 4) * N + x - y + 1 + k) div 2 = j0"
    by simp
  have "2 * h + 2 * x + 2 - 2 * N = x - y + 1 + k"
    using hv(1) t by simp
  then have hb: "2 - N \<le> 2 * h + 2 * x + 2 - 2 * N" "2 * h + 2 * x + 2 - 2 * N \<le> N + 1"
    using hv(2,3) x y by simp_all
  have j: "j = (if j0 < 1 then j0 + 4 * N else j0)"
    unfolding j_def pos_of_xy_def Let_def r_def [symmetric] q ks half by simp
  have e1: "(r - N + 1) div 2 = h" by (simp add: h_def t_def)
  have "3 * N + 1 - r = 2 * N + 1 - t" by (simp add: t_def)
  then have e2: "(3 * N + 1 - r) div 2 = N - h + k"
    by (simp only: hv(4))
  show ?thesis
  proof (cases "j0 < 1")
    case False
    then have j': "j = c * N + h + x + 1 - N" by (simp add: j j0_def)
    have "1 \<le> c * N + h + x + 1 - N"
      using False by (simp add: j0_def)
    then have jb: "1 \<le> j" "j \<le> 4 * quarter N r"
      unfolding q j' using cn hb N by linarith+
    have "j - h + N - 1 = c * N + x"
      by (simp add: j' algebra_simps)
    then have ifm: "(j - (r - N + 1) div 2 + N - 1) div N = c"
      unfolding e1 using x by (intro div_offset [of x]) simp_all
    have "j - (N - h + k) + N - 1 = c * N + (N - 1 - y)"
      using hv(1) by (simp add: j' t algebra_simps)
    then have ifp: "(j - (3 * N + 1 - r) div 2 + N - 1) div N = c"
      unfolding e2 using y by (intro div_offset [of "N - 1 - y"]) simp_all
    have f: "face_of_ringpos N r j = c + 4"
      using face_of_ringpos_belt [OF _ _ ifm ifp] rb N c by simp
    have "xy_of_ringpos N r j = (c + 4, x, y)"
    proof (rule xy_of_ringpos_eq [OF f])
      show "r - jrll (c + 4) * N + 1 = - (x + y)"
        by (simp add: ft r)
      show "2 * j - jpll (c + 4) * quarter N r - kshift N r - 1 = x - y"
        unfolding q ks ft j' using hv(1) by (simp add: t algebra_simps)
      show "(if 2 * N \<le> x - y then x - y - 8 * N else x - y) = x - y"
        using x y by simp
    qed
    with rb jb N show ?thesis by simp
  next
    case True
    have c0: "c = 0"
    proof (rule ccontr)
      assume "c \<noteq> 0"
      with c have "1 * N \<le> c * N"
        using N by (intro mult_right_mono) simp_all
      moreover have "c * N + h + x + 1 - N < 1"
        using True by (simp add: j0_def)
      ultimately show False using hb N by linarith
    qed
    have j': "j = h + x + 1 + 3 * N" using True by (simp add: j j0_def c0)
    have "h + x + 1 - N < 1"
      using True by (simp add: j0_def c0)
    then have jb: "1 \<le> j" "j \<le> 4 * quarter N r"
      unfolding q j' using hb N by linarith+
    have "j - h + N - 1 = 4 * N + x"
      by (simp add: j')
    then have ifm: "(j - (r - N + 1) div 2 + N - 1) div N = 4"
      unfolding e1 using x by (intro div_offset [of x]) simp_all
    have "j - (N - h + k) + N - 1 = 4 * N + (N - 1 - y)"
      using hv(1) by (simp add: j' t algebra_simps)
    then have ifp: "(j - (3 * N + 1 - r) div 2 + N - 1) div N = 4"
      unfolding e2 using y by (intro div_offset [of "N - 1 - y"]) simp_all
    have f: "face_of_ringpos N r j = c + 4"
      using face_of_ringpos_belt [OF _ _ ifm ifp] rb N by (simp add: c0)
    have "xy_of_ringpos N r j = (c + 4, x, y)"
    proof (rule xy_of_ringpos_eq [OF f])
      show "r - jrll (c + 4) * N + 1 = - (x + y)"
        by (simp add: ft r)
      show "2 * j - jpll (c + 4) * quarter N r - kshift N r - 1 = x - y + 8 * N"
        unfolding q ks ft j' using hv(1) by (simp add: t c0 algebra_simps)
      show "(if 2 * N \<le> x - y + 8 * N then x - y + 8 * N - 8 * N else x - y + 8 * N) = x - y"
        using x y N by simp
    qed
    with rb jb N show ?thesis by simp
  qed
qed

subsection \<open>The sweep finds the ring it started from\<close>

lemma ring_length_nonneg: "0 \<le> N \<Longrightarrow> 0 \<le> r \<Longrightarrow> r \<le> 4 * N \<Longrightarrow> 0 \<le> ring_length N r"
  by (simp add: ring_length_def quarter_def)

lemma ring_start_next:
  "0 \<le> r \<Longrightarrow> ring_start N (nat (r + 1)) = ring_start N (nat r) + ring_length N r"
  by (simp add: nat_add_distrib)

lemma ring_start_cap:
  "int r \<le> N \<Longrightarrow> ring_start N r = 2 * int r * (int r - 1)"
proof (induction r)
  case 0
  then show ?case by simp
next
  case (Suc r)
  then have "ring_length N (int r) = 4 * int r"
    by (simp add: ring_length_def quarter_def)
  with Suc show ?case
    by (simp add: algebra_simps)
qed

lemma ring_start_belt:
  "N \<le> int r \<Longrightarrow> int r \<le> 3 * N + 1 \<Longrightarrow> 0 \<le> N \<Longrightarrow>
     ring_start N r = 2 * N * (N - 1) + (int r - N) * (4 * N)"
proof (induction r)
  case 0
  then show ?case by simp
next
  case (Suc r)
  show ?case
  proof (cases "N = int (Suc r)")
    case True
    then show ?thesis
      using ring_start_cap [of "Suc r" N] by simp
  next
    case False
    with Suc.prems have b: "N \<le> int r" "int r \<le> 3 * N" by auto
    then have "ring_length N (int r) = 4 * N"
      by (simp add: ring_length_def quarter_def)
    with Suc b show ?thesis
      by (simp add: algebra_simps)
  qed
qed

lemma ring_start_south:
  "3 * N + 1 \<le> int r \<Longrightarrow> int r \<le> 4 * N \<Longrightarrow> 0 \<le> N \<Longrightarrow>
     ring_start N r = 12 * N * N - 2 * (4 * N - int r) * (4 * N - int r + 1)"
proof (induction r)
  case 0
  then show ?case by simp
next
  case (Suc r)
  show ?case
  proof (cases "3 * N + 1 = int (Suc r)")
    case True
    have "ring_start N (Suc r) = 2 * N * (N - 1) + (int (Suc r) - N) * (4 * N)"
      using True Suc.prems by (intro ring_start_belt) auto
    also have "\<dots> = 12 * N * N - 2 * (4 * N - int (Suc r)) * (4 * N - int (Suc r) + 1)"
      unfolding True [symmetric] by (simp add: algebra_simps)
    finally show ?thesis .
  next
    case False
    with Suc.prems have b: "3 * N + 1 \<le> int r" "int r < 4 * N" by auto
    then have "ring_length N (int r) = 4 * (4 * N - int r)"
      by (simp add: ring_length_def quarter_def)
    with Suc b show ?thesis
      by (simp add: algebra_simps)
  qed
qed

lemma ring_start_total: "0 \<le> N \<Longrightarrow> ring_start N (nat (4 * N)) = 12 * N\<^sup>2"
proof (cases "N = 0")
  case True
  then show ?thesis by simp
next
  case False
  assume "0 \<le> N"
  with False have "3 * N + 1 \<le> int (nat (4 * N))" "int (nat (4 * N)) \<le> 4 * N" by auto
  from ring_start_south [OF this \<open>0 \<le> N\<close>] \<open>0 \<le> N\<close> show ?thesis
    by (simp add: power2_eq_square)
qed

lemma ring_start_mono:
  "0 \<le> N \<Longrightarrow> r \<le> r' \<Longrightarrow> int r' \<le> 4 * N + 1 \<Longrightarrow> ring_start N r \<le> ring_start N r'"
proof (induction r')
  case 0
  then show ?case by simp
next
  case (Suc r')
  show ?case
  proof (cases "r = Suc r'")
    case True
    then show ?thesis by simp
  next
    case False
    with Suc.prems have "r \<le> r'" "int r' \<le> 4 * N" by auto
    moreover have "0 \<le> ring_length N (int r')"
      using Suc.prems \<open>int r' \<le> 4 * N\<close> by (intro ring_length_nonneg) auto
    ultimately show ?thesis
      using Suc.IH Suc.prems by simp
  qed
qed

lemma locate_ring_start:
  assumes "0 \<le> N" "1 \<le> j" "j \<le> ring_length N r" "r \<le> 4 * N - 1"
  shows "1 \<le> r0 \<Longrightarrow> r0 \<le> r \<Longrightarrow>
           locate N r0 (ring_start N (nat r) - ring_start N (nat r0) + j - 1) = (r, j)"
proof (induction "nat (r - r0)" arbitrary: r0)
  case 0
  then have "r0 = r" by simp
  then show ?case
    using assms by (subst locate.simps) simp
next
  case (Suc d)
  then have lt: "r0 < r" by linarith
  have len0: "0 \<le> ring_length N r0"
    using assms Suc.prems lt by (intro ring_length_nonneg) auto
  have next0: "ring_start N (nat (r0 + 1)) = ring_start N (nat r0) + ring_length N r0"
    using Suc.prems by (intro ring_start_next) auto
  have mono: "ring_start N (nat (r0 + 1)) \<le> ring_start N (nat r)"
    using assms lt Suc.prems by (intro ring_start_mono) auto
  have ih: "locate N (r0 + 1) (ring_start N (nat r) - ring_start N (nat (r0 + 1)) + j - 1) = (r, j)"
    using Suc.hyps(2) Suc.prems lt by (intro Suc.hyps(1)) auto
  have cond: "r0 < 4 * N - 1"
    "ring_length N r0 \<le> ring_start N (nat r) - ring_start N (nat r0) + j - 1"
    using assms lt mono next0 by auto
  have eq: "ring_start N (nat r) - ring_start N (nat r0) + j - 1 - ring_length N r0
          = ring_start N (nat r) - ring_start N (nat (r0 + 1)) + j - 1"
    using next0 by simp
  have step: "locate N r0 (ring_start N (nat r) - ring_start N (nat r0) + j - 1)
          = locate N (r0 + 1)
              (ring_start N (nat r) - ring_start N (nat r0) + j - 1 - ring_length N r0)"
    using cond by (subst locate.simps) simp
  show ?case
    by (simp only: step eq ih)
qed

lemma locate_ring_index:
  assumes "0 \<le> N" "1 \<le> r" "r \<le> 4 * N - 1" "1 \<le> j" "j \<le> ring_length N r"
  shows "locate N 1 (ring_start N (nat r) + j - 1) = (r, j)"
  using locate_ring_start [OF assms(1,4,5,3), of 1] assms(1,2) by (simp add: ring_length_def quarter_def)

lemma ring_index_range:
  assumes "0 \<le> N" "1 \<le> r" "r \<le> 4 * N - 1" "1 \<le> j" "j \<le> ring_length N r"
  shows "0 \<le> ring_start N (nat r) + j - 1" "ring_start N (nat r) + j - 1 < 12 * N\<^sup>2"
proof -
  have "ring_start N 0 \<le> ring_start N (nat r)"
    using assms by (intro ring_start_mono) auto
  then show "0 \<le> ring_start N (nat r) + j - 1"
    using assms by simp
  have "ring_start N (nat (r + 1)) \<le> ring_start N (nat (4 * N))"
    using assms by (intro ring_start_mono) auto
  moreover have "ring_start N (nat (r + 1)) = ring_start N (nat r) + ring_length N r"
    using assms by (intro ring_start_next) auto
  ultimately show "ring_start N (nat r) + j - 1 < 12 * N\<^sup>2"
    using assms ring_start_total [of N] by simp
qed

subsection \<open>Both orderings number every pixel once\<close>

lemma xy_ringpos_roundtrip:
  assumes N: "0 < N" and f: "0 \<le> f" "f < 12"
    and x: "0 \<le> x" "x < N" and y: "0 \<le> y" "y < N"
  defines "r \<equiv> ring_of_xy N f x y" and "j \<equiv> pos_of_xy N f x y"
  shows "1 \<le> r \<and> r \<le> 4 * N - 1 \<and> 1 \<le> j \<and> j \<le> 4 * quarter N r
       \<and> xy_of_ringpos N r j = (f, x, y)"
proof -
  consider "f < 4" "N \<le> x + y" | "f < 4" "x + y \<le> N - 1"
    | "4 \<le> f" "f < 8"
    | "8 \<le> f" "N - 1 \<le> x + y" | "8 \<le> f" "x + y \<le> N - 2"
    by linarith
  then show ?thesis
  proof cases
    case 1
    then show ?thesis
      unfolding r_def j_def using north_cap [OF N f(1) _ x y, of] by simp
  next
    case 2
    then show ?thesis
      unfolding r_def j_def using north_belt [OF N f(1) _ x y] by simp
  next
    case 3
    then show ?thesis
      unfolding r_def j_def using equatorial_belt [OF N _ _ x y, of "f - 4"] by simp
  next
    case 4
    then show ?thesis
      unfolding r_def j_def using south_belt [OF N _ _ x y, of "f - 8"] f by simp
  next
    case 5
    then show ?thesis
      unfolding r_def j_def using south_cap [OF N _ _ x y, of "f - 8"] f by simp
  qed
qed

lemma ring_to_xy_to_ring:
  assumes "0 < N" "valid_xy N v"
  shows "ring_to_xy N (xy_to_ring N v) = v" "0 \<le> xy_to_ring N v" "xy_to_ring N v < 12 * N\<^sup>2"
proof -
  obtain f x y where v: "v = (f, x, y)" by (cases v)
  define r j where "r = ring_of_xy N f x y" and "j = pos_of_xy N f x y"
  have vb: "0 \<le> f" "f < 12" "0 \<le> x" "x < N" "0 \<le> y" "y < N"
    using assms(2) by (simp_all add: v valid_xy_def)
  have g: "1 \<le> r" "r \<le> 4 * N - 1" "1 \<le> j" "j \<le> ring_length N r"
    "xy_of_ringpos N r j = (f, x, y)"
    using xy_ringpos_roundtrip [OF assms(1) vb] by (simp_all add: r_def j_def ring_length_def)
  have N0: "0 \<le> N" using assms(1) by simp
  have e: "xy_to_ring N v = ring_start N (nat r) + j - 1"
    by (simp add: xy_to_ring_def v r_def j_def)
  show "ring_to_xy N (xy_to_ring N v) = v"
    unfolding ring_to_xy_def e locate_ring_index [OF N0 g(1,2,3,4)] using g(5) by (simp add: v)
  show "0 \<le> xy_to_ring N v" "xy_to_ring N v < 12 * N\<^sup>2"
    unfolding e using ring_index_range [OF N0 g(1,2,3,4)] by simp_all
qed

lemma card_valid_xy:
  assumes "0 \<le> N"
  shows "card {v. valid_xy N v} = card {0 ..< 12 * N\<^sup>2}"
proof -
  have "{v. valid_xy N v} = {0 ..< 12} \<times> {0 ..< N} \<times> {0 ..< N}"
    by (auto simp: valid_xy_def)
  then have "card {v. valid_xy N v} = 12 * (nat N * nat N)"
    by (simp add: card_cartesian_product)
  also have "\<dots> = nat (12 * N\<^sup>2)"
    using assms by (simp add: nat_mult_distrib power2_eq_square)
  finally show ?thesis by simp
qed

lemma xy_to_ring_onto:
  assumes "0 < N" "0 \<le> p" "p < 12 * N\<^sup>2"
  shows "\<exists>v. valid_xy N v \<and> xy_to_ring N v = p"
proof -
  let ?A = "{v. valid_xy N v}"
  let ?P = "{0 ..< 12 * N\<^sup>2}"
  have inj: "inj_on (xy_to_ring N) ?A"
    by (rule inj_on_inverseI [where g = "ring_to_xy N"]) (simp add: ring_to_xy_to_ring(1) [OF assms(1)])
  have sub: "xy_to_ring N ` ?A \<subseteq> ?P"
    using ring_to_xy_to_ring(2,3) [OF assms(1)] by auto
  have "card (xy_to_ring N ` ?A) = card ?P"
    using card_image [OF inj] card_valid_xy [of N] assms(1) by simp
  with sub have "xy_to_ring N ` ?A = ?P"
    by (intro card_subset_eq) simp_all
  moreover have "p \<in> ?P" using assms by simp
  ultimately have "p \<in> xy_to_ring N ` ?A" by simp
  then obtain v where "v \<in> ?A" "p = xy_to_ring N v" by (rule imageE)
  then show ?thesis by (intro exI [of _ v]) simp
qed

lemma xy_to_ring_to_xy:
  assumes "0 < N" "0 \<le> p" "p < 12 * N\<^sup>2"
  shows "valid_xy N (ring_to_xy N p)" "xy_to_ring N (ring_to_xy N p) = p"
proof -
  obtain v where v: "valid_xy N v" "xy_to_ring N v = p"
    using xy_to_ring_onto [OF assms] by blast
  have "ring_to_xy N p = v"
    using ring_to_xy_to_ring(1) [OF assms(1) v(1)] v(2) by simp
  then show "valid_xy N (ring_to_xy N p)" "xy_to_ring N (ring_to_xy N p) = p"
    using v by simp_all
qed

lemma nested_to_xy_to_nested:
  assumes "N = 2 ^ k" "valid_xy N v"
  shows "nested_to_xy N (xy_to_nested N v) = v" "0 \<le> xy_to_nested N v"
    "xy_to_nested N v < 12 * N\<^sup>2"
proof -
  obtain f x y where v: "v = (f, x, y)" by (cases v)
  have vb: "0 \<le> f" "f < 12" "0 \<le> x" "x < 2 ^ k" "0 \<le> y" "y < 2 ^ k"
    using assms by (simp_all add: v valid_xy_def)
  define s where "s = spread_bits x + 2 * spread_bits y"
  have N2: "N\<^sup>2 = 4 ^ k"
    by (simp add: assms(1) power2_eq_square flip: power_mult_distrib)
  have sb: "0 \<le> s" "s < N\<^sup>2"
    using interleave_range [OF vb(3-6)] by (simp_all add: s_def N2)
  have e: "xy_to_nested N (f, x, y) = f * N\<^sup>2 + s"
    by (simp add: xy_to_nested_def s_def)
  have d: "(f * N\<^sup>2 + s) div N\<^sup>2 = f"
    using sb by (intro div_offset [of s]) simp_all
  have m: "(f * N\<^sup>2 + s) mod N\<^sup>2 = s"
    using sb by simp
  have c: "compress_bits s = x" "compress_bits (s div 2) = y"
    using compress_interleave [OF vb(3-6)] by (simp_all add: s_def)
  show "nested_to_xy N (xy_to_nested N v) = v"
    unfolding v e nested_to_xy_def d m c ..
  have "0 \<le> f * N\<^sup>2" using vb by simp
  then show "0 \<le> xy_to_nested N v" unfolding v e using sb by simp
  have "f * N\<^sup>2 \<le> 11 * N\<^sup>2" using vb by (intro mult_right_mono) simp_all
  then show "xy_to_nested N v < 12 * N\<^sup>2" unfolding v e using sb by simp
qed

lemma xy_to_nested_to_xy:
  assumes "N = 2 ^ k" "0 \<le> p" "p < 12 * N\<^sup>2"
  shows "valid_xy N (nested_to_xy N p)" "xy_to_nested N (nested_to_xy N p) = p"
proof -
  define s where "s = p mod N\<^sup>2"
  have N2: "N\<^sup>2 = 4 ^ k"
    by (simp add: assms(1) power2_eq_square flip: power_mult_distrib)
  have Npos: "0 < N\<^sup>2" by (simp add: N2)
  have sb: "0 \<le> s" "s < 4 ^ k"
    using Npos by (simp_all add: s_def flip: N2)
  have sb2: "0 \<le> s div 2" "s div 2 < 4 ^ k"
    using sb by simp_all
  have fb: "0 \<le> p div N\<^sup>2" "p div N\<^sup>2 < 12"
  proof -
    show "0 \<le> p div N\<^sup>2"
      using assms(2) Npos by (simp add: pos_imp_zdiv_nonneg_iff)
    have split: "p = (p div N\<^sup>2) * N\<^sup>2 + s"
      unfolding s_def by (rule div_mult_mod_eq [symmetric])
    have "0 \<le> s"
      using Npos by (simp add: s_def)
    show "p div N\<^sup>2 < 12"
    proof (rule ccontr)
      assume "\<not> p div N\<^sup>2 < 12"
      then have "12 * N\<^sup>2 \<le> (p div N\<^sup>2) * N\<^sup>2"
        using Npos by (intro mult_right_mono) simp_all
      with split \<open>0 \<le> s\<close> assms(3) show False by linarith
    qed
  qed
  have xb: "0 \<le> compress_bits s" "compress_bits s < N"
    using compress_bits_range [OF sb] by (simp_all add: assms(1))
  have yb: "0 \<le> compress_bits (s div 2)" "compress_bits (s div 2) < N"
    using compress_bits_range [OF sb2] by (simp_all add: assms(1))
  show "valid_xy N (nested_to_xy N p)"
    using fb xb yb by (simp add: valid_xy_def nested_to_xy_def s_def)
  have "spread_bits (compress_bits s) + 2 * spread_bits (compress_bits (s div 2)) = s"
    by (rule interleave_compress [OF sb])
  then have "xy_to_nested N (nested_to_xy N p) = (p div N\<^sup>2) * N\<^sup>2 + p mod N\<^sup>2"
    by (simp add: xy_to_nested_def nested_to_xy_def s_def)
  then show "xy_to_nested N (nested_to_xy N p) = p"
    by (simp only: div_mult_mod_eq)
qed

subsection \<open>The conversions are inverse to each other\<close>

lemma index_round_trips:
  assumes "N = 2 ^ k" "0 \<le> i" "i < 12 * N\<^sup>2"
  shows "\<exists>j. nested_to_ring_index N i = Inr j \<and> ring_to_nested_index N j = Inr i"
    and "\<exists>j. ring_to_nested_index N i = Inr j \<and> nested_to_ring_index N j = Inr i"
proof -
  have N: "0 < N" by (simp add: assms(1))
  have v1: "valid_xy N (nested_to_xy N i)"
    and n1: "xy_to_nested N (nested_to_xy N i) = i"
    using xy_to_nested_to_xy [OF assms] by simp_all
  have r1: "ring_to_xy N (xy_to_ring N (nested_to_xy N i)) = nested_to_xy N i"
    and b1: "0 \<le> xy_to_ring N (nested_to_xy N i)" "xy_to_ring N (nested_to_xy N i) < 12 * N\<^sup>2"
    using ring_to_xy_to_ring [OF N v1] by simp_all
  show "\<exists>j. nested_to_ring_index N i = Inr j \<and> ring_to_nested_index N j = Inr i"
    using N assms(2,3) b1 by (simp add: nested_to_ring_index_def ring_to_nested_index_def r1 n1)
  have v2: "valid_xy N (ring_to_xy N i)"
    and r2: "xy_to_ring N (ring_to_xy N i) = i"
    using xy_to_ring_to_xy [OF N assms(2,3)] by simp_all
  have n2: "nested_to_xy N (xy_to_nested N (ring_to_xy N i)) = ring_to_xy N i"
    and b2: "0 \<le> xy_to_nested N (ring_to_xy N i)" "xy_to_nested N (ring_to_xy N i) < 12 * N\<^sup>2"
    using nested_to_xy_to_nested [OF assms(1) v2] by simp_all
  show "\<exists>j. ring_to_nested_index N i = Inr j \<and> nested_to_ring_index N j = Inr i"
    using N assms(2,3) b2 by (simp add: nested_to_ring_index_def ring_to_nested_index_def r2 n2)
qed

lemma batch_round_trip:
  assumes "\<forall>i \<in> set idx. \<exists>j. f i = Inr j \<and> g j = Inr i"
  shows "\<exists>js. batch f idx = Inr js \<and> batch g js = Inr idx"
  using assms
proof (induction idx)
  case Nil
  then show ?case by simp
next
  case (Cons i rest)
  then obtain j where j: "f i = Inr j" "g j = Inr i" by auto
  from Cons obtain js where js: "batch f rest = Inr js" "batch g js = Inr rest" by auto
  show ?case
    by (intro exI [of _ "j # js"]) (simp add: j js)
qed

text \<open>
  Claim C2. For a resolution \<^verbatim>\<open>nside\<close> that is a power of two and indices in
  \<^verbatim>\<open>[0, 12 * nside^2)\<close>, the two conversions of a handle are inverse to each other:
  \<^verbatim>\<open>nested_to_ring\<close> returns ring indices that \<^verbatim>\<open>ring_to_nested\<close> takes back to the
  indices given, and \<^verbatim>\<open>ring_to_nested\<close> returns nested indices that
  \<^verbatim>\<open>nested_to_ring\<close> takes back to the indices given. The handle calls the two
  conversions of the core, which are those of the specification here.
\<close>

theorem ring_nested_mutual_inverses:
  assumes "nside h = 2 ^ k"
    and "\<forall>i \<in> set idx. 0 \<le> i \<and> i < 12 * (nside h)\<^sup>2"
    and "core_nested_to_ring c = nested_to_ring_indices"
    and "core_ring_to_nested c = ring_to_nested_indices"
  shows "(\<exists>ring_index. nested_to_ring c h idx = Inr ring_index
            \<and> ring_to_nested c h ring_index = Inr idx)
       \<and> (\<exists>nested_index. ring_to_nested c h idx = Inr nested_index
            \<and> nested_to_ring c h nested_index = Inr idx)"
proof -
  let ?N = "nside h"
  have a: "\<forall>i \<in> set idx. \<exists>j. nested_to_ring_index ?N i = Inr j \<and> ring_to_nested_index ?N j = Inr i"
    using index_round_trips(1) [OF assms(1)] assms(2) by blast
  have b: "\<forall>i \<in> set idx. \<exists>j. ring_to_nested_index ?N i = Inr j \<and> nested_to_ring_index ?N j = Inr i"
    using index_round_trips(2) [OF assms(1)] assms(2) by blast
  obtain rs where rs: "batch (nested_to_ring_index ?N) idx = Inr rs"
    "batch (ring_to_nested_index ?N) rs = Inr idx"
    using batch_round_trip [OF a] by blast
  obtain ns where ns: "batch (ring_to_nested_index ?N) idx = Inr ns"
    "batch (nested_to_ring_index ?N) ns = Inr idx"
    using batch_round_trip [OF b] by blast
  show ?thesis
    by (simp add: nested_to_ring_def ring_to_nested_def assms(3,4) nested_to_ring_indices_def
        ring_to_nested_indices_def propagate_simps rs ns)
qed

lemma ordering_examples:
  "nested_to_ring_indices [0, 1, 47] 2 = Inr [13, 5, 35]"
  "ring_to_nested_indices [13, 5, 35] 2 = Inr [0, 1, 47]"
  "ring_to_nested_indices [0, 1, 47] 2 = Inr [3, 7, 44]"
  "nested_to_ring_indices [3, 7, 44] 2 = Inr [0, 1, 47]"
  by code_simp+

text \<open>
  At \<^verbatim>\<open>nside = 2\<close> (48 pixels): the nested indices 0, 1 and 47 are the ring indices
  13, 5 and 35, and the ring indices 0, 1 and 47 are the nested indices 3, 7 and 44.
\<close>

theorem ring_nested_mutual_inverses_witness:
  "\<forall>(c :: real core).
     nside \<lparr>nside = 2, order = ''nested''\<rparr> = 2 ^ 1
   \<and> (\<forall>i \<in> set [0, 1, 47]. 0 \<le> i \<and> i < 12 * (nside \<lparr>nside = 2, order = ''nested''\<rparr>)\<^sup>2)
   \<and> nested_to_ring
        (c\<lparr>core_ring_to_nested := ring_to_nested_indices,
           core_nested_to_ring := nested_to_ring_indices\<rparr>)
        \<lparr>nside = 2, order = ''nested''\<rparr> [0, 1, 47] = Inr [13, 5, 35]
   \<and> ring_to_nested
        (c\<lparr>core_ring_to_nested := ring_to_nested_indices,
           core_nested_to_ring := nested_to_ring_indices\<rparr>)
        \<lparr>nside = 2, order = ''nested''\<rparr> [13, 5, 35] = Inr [0, 1, 47]
   \<and> ring_to_nested
        (c\<lparr>core_ring_to_nested := ring_to_nested_indices,
           core_nested_to_ring := nested_to_ring_indices\<rparr>)
        \<lparr>nside = 2, order = ''nested''\<rparr> [0, 1, 47] = Inr [3, 7, 44]
   \<and> nested_to_ring
        (c\<lparr>core_ring_to_nested := ring_to_nested_indices,
           core_nested_to_ring := nested_to_ring_indices\<rparr>)
        \<lparr>nside = 2, order = ''nested''\<rparr> [3, 7, 44] = Inr [0, 1, 47]"
proof (intro allI)
  fix c :: "real core"
  let ?c = "c\<lparr>core_ring_to_nested := ring_to_nested_indices,
              core_nested_to_ring := nested_to_ring_indices\<rparr>"
  let ?h = "\<lparr>nside = 2, order = ''nested''\<rparr>"
  have k: "nside ?h = 2 ^ 1" by simp
  have r: "\<forall>i \<in> set [0, 1, 47]. 0 \<le> i \<and> i < 12 * (nside ?h)\<^sup>2" by simp
  have n: "core_nested_to_ring ?c = nested_to_ring_indices"
    "core_ring_to_nested ?c = ring_to_nested_indices" by simp_all
  have e: "nested_to_ring ?c ?h [0, 1, 47] = Inr [13, 5, 35]"
    "ring_to_nested ?c ?h [0, 1, 47] = Inr [3, 7, 44]"
    by (simp_all add: nested_to_ring_def ring_to_nested_def propagate_simps ordering_examples)
  show "nside ?h = 2 ^ 1
   \<and> (\<forall>i \<in> set [0, 1, 47]. 0 \<le> i \<and> i < 12 * (nside ?h)\<^sup>2)
   \<and> nested_to_ring ?c ?h [0, 1, 47] = Inr [13, 5, 35]
   \<and> ring_to_nested ?c ?h [13, 5, 35] = Inr [0, 1, 47]
   \<and> ring_to_nested ?c ?h [0, 1, 47] = Inr [3, 7, 44]
   \<and> nested_to_ring ?c ?h [3, 7, 44] = Inr [0, 1, 47]"
    using ring_nested_mutual_inverses [OF k r n] k r e by auto
qed

end
